theory Spec2Isabelle
  imports Complex_Main
begin

section \<open>Python values, errors and library functions\<close>

text \<open>
  The controller is Python. Values that travel through untyped fields (the decoded JSON
  payloads, the motor position, the steps per revolution) are values of \<open>pyval\<close>.
  Python's \<open>int\<close> and \<open>float\<close> are both embedded in the rationals: \<open>/\<close> is exact
  division, \<open>math.floor\<close> is \<open>\<lfloor>_\<rfloor>\<close> and \<open>%\<close> is the floored remainder.
  The rounding of IEEE doubles is not modelled, and \<open>15\<close> and \<open>15.0\<close> are one value. The
  arithmetic of the source is this arithmetic where no double rounds: on integers of
  magnitude below \<open>2^50\<close>, with a sample count that divides the steps per revolution (the
  sector width is then an integer and half of it a binary fraction). Where a double
  rounds the two differ: for a tiny negative dividend Python's \<open>%\<close> returns the modulus
  itself. The properties of positions below are stated where the arithmetic is exact.
\<close>

datatype pyval =
    PNone
  | PBool bool
  | PNum rat
  | PStr string
  | PList "pyval list"
  | PDict "(string \<times> pyval) list"

text \<open>
  Every \<open>raise\<close> of the source and every exception of the interpreter that the modelled
  code can meet is a value of \<open>error\<close>.
\<close>

datatype error =
    ReadTimeout string     \<comment> \<open>\<open>RuntimeError('Data read timed out with response: ...')\<close>\<close>
  | JSONDecodeError        \<comment> \<open>\<open>json.loads\<close> rejects the buffer\<close>
  | CommandFailed pyval    \<comment> \<open>\<open>RuntimeError('Command failed: ...')\<close>, with the echoed command\<close>
  | KeyError string        \<comment> \<open>subscript of a missing dictionary key\<close>
  | NotEnabled             \<comment> \<open>\<open>RuntimeError('Motor is not enabled.')\<close>\<close>
  | InvalidSample          \<comment> \<open>\<open>ValueError('Invalid sample number. ...')\<close>\<close>
  | TypeError              \<comment> \<open>arithmetic on a value that is not a number\<close>
  | ZeroDivisionError

text \<open>
  An exception does not undo the assignments and the I/O made before it: every operation
  returns its outcome together with the object as it is afterwards.
\<close>

type_synonym ('a, 's) outcome = "(error + 'a) \<times> 's"

text \<open>
  \<open>json.loads\<close> and \<open>str.format\<close> belong to Python's standard library, not to this
  repository. The model takes them as parameters. A buffer that the loop of
  \<open>read_response\<close> hands to \<open>json.loads\<close> ends at its first closing brace, so a text that
  parses is a JSON object: the decoder returns a dictionary or fails.
\<close>

record pylib =
  json_loads :: "string \<Rightarrow> (string \<rightharpoonup> pyval) option"
  str_format :: "pyval \<Rightarrow> string"

text \<open>Numbers as Python's arithmetic operators see them (\<open>bool\<close> is a subtype of \<open>int\<close>).\<close>

fun py_num :: "pyval \<Rightarrow> rat option" where
  "py_num (PNum r) = Some r"
| "py_num (PBool b) = Some (if b then 1 else 0)"
| "py_num _ = None"

text \<open>
  Python's \<open>%\<close> on numbers with a non-zero modulus, computed exactly: the result is
  zero or has the sign of the modulus, and is smaller than it in magnitude.
\<close>

definition py_mod :: "rat \<Rightarrow> rat \<Rightarrow> rat" where
  "py_mod x m = x - m * of_int \<lfloor>x / m\<rfloor>"

section \<open>The serial port\<close>

text \<open>
  \<open>serial.Serial\<close> is the byte channel to the device, open, with a read timeout set.
  \<open>incoming\<close> is what the successive calls of \<open>read()\<close> will return: each entry is the
  bytes of one call (one byte, or none when the call times out); once the list is used
  up the device stays silent and every call returns no byte. \<open>written\<close> and
  \<open>delivered\<close> record the traffic: the arguments of the calls of \<open>write\<close> and the results
  of the calls of \<open>read\<close>, oldest first.
\<close>

record serial =
  written :: "string list"
  incoming :: "string list"
  delivered :: "string list"

definition serial_write :: "string \<Rightarrow> serial \<Rightarrow> serial" where
  "serial_write bs ch = ch\<lparr>written := written ch @ [bs]\<rparr>"

definition serial_read :: "serial \<Rightarrow> string \<times> serial" where
  "serial_read ch =
     (case incoming ch of
        [] \<Rightarrow> ([], ch\<lparr>delivered := delivered ch @ [[]]\<rparr>)
      | c # cs \<Rightarrow> (c, ch\<lparr>incoming := cs, delivered := delivered ch @ [c]\<rparr>))"

section \<open>ArduinoController\<close>

text \<open>
  The fields \<open>__port\<close>, \<open>__baud\<close>, \<open>__timeout\<close> and \<open>__inst\<close> of the class are
  \<open>p_port\<close>, \<open>p_baud\<close>, \<open>p_timeout\<close> and \<open>p_inst\<close>.
\<close>

record arduino =
  p_port :: string
  p_baud :: rat
  p_timeout :: rat
  p_inst :: serial
  debug :: bool
  read_attempts :: int
  termination_char :: "string option"

definition arduino_init ::
  "string \<Rightarrow> rat \<Rightarrow> rat \<Rightarrow> int \<Rightarrow> string option \<Rightarrow> arduino" where
  "arduino_init port baud timeout attempts tc =
     \<lparr>p_port = port, p_baud = baud, p_timeout = timeout,
      p_inst = \<lparr>written = [], incoming = [], delivered = []\<rparr>,
      debug = False, read_attempts = attempts, termination_char = tc\<rparr>"

text \<open>
  The getters of the properties \<open>port\<close>, \<open>baud\<close> and \<open>timeout\<close>. The constructor and the
  setter of \<open>timeout\<close> store the timeout in \<open>__timeout\<close>; the getter is
  \<open>return self.__baud\<close>.
\<close>

definition port :: "'a arduino_scheme \<Rightarrow> string" where
  "port self = p_port self"

definition baud :: "'a arduino_scheme \<Rightarrow> rat" where
  "baud self = p_baud self"

definition timeout :: "'a arduino_scheme \<Rightarrow> rat" where
  "timeout self = p_baud self"

subsection \<open>read_response\<close>

text \<open>
  The \<open>while\<close> loop of \<open>read_response\<close>. \<open>cur\<close> is the source's \<open>curr\<close>, \<open>None\<close> before the first read.
  The source keeps \<open>resp_len\<close>, which is \<open>len(resp)\<close> whenever the loop test runs; the
  model compares the length of the buffer before and after the read.
\<close>

function read_loop ::
  "int \<Rightarrow> string \<Rightarrow> string option \<Rightarrow> int \<Rightarrow> serial \<Rightarrow> (string \<times> int) \<times> serial" where
  "read_loop ra resp cur attempts ch =
     (if cur \<noteq> Some ''}'' \<and> attempts < ra then
        (case serial_read ch of
           (c, ch') \<Rightarrow>
             read_loop ra (resp @ c) (Some c)
               (if length (resp @ c) = length resp then attempts + 1 else attempts) ch')
      else ((resp, attempts), ch))"
  by pat_completeness auto
termination
  by (relation "measure (\<lambda>(ra, resp, cur, attempts, ch).
        length (incoming ch) + nat (ra - attempts))")
     (auto simp: serial_read_def split: list.splits)

declare read_loop.simps [simp del]

definition read_response ::
  "pylib \<Rightarrow> 'a arduino_scheme \<Rightarrow> (string \<rightharpoonup> pyval, 'a arduino_scheme) outcome" where
  "read_response L self =
     (case read_loop (read_attempts self) [] None 0 (p_inst self) of
        ((resp, attempts), ch) \<Rightarrow>
          if attempts = read_attempts self then
            (Inl (ReadTimeout resp), self\<lparr>p_inst := ch\<rparr>)
          else
            (case json_loads L resp of
               None \<Rightarrow> (Inl JSONDecodeError, self\<lparr>p_inst := ch\<rparr>)
             | Some d \<Rightarrow> (Inr d, self\<lparr>p_inst := ch\<rparr>)))"

subsection \<open>run\<close>

definition run ::
  "pylib \<Rightarrow> 'a arduino_scheme \<Rightarrow> string \<Rightarrow> pyval list \<Rightarrow> (pyval, 'a arduino_scheme) outcome" where
  "run L self name args =
     (let cmd = ''run[ '' @ name;
          cmd = foldl (\<lambda>cmd arg. cmd @ '', '' @ str_format L arg) cmd args;
          cmd = cmd @ '' ]'';
          cmd = (case termination_char self of None \<Rightarrow> cmd | Some t \<Rightarrow> cmd @ t);
          self = self\<lparr>p_inst := serial_write cmd (p_inst self)\<rparr>
      in case read_response L self of
           (Inl e, self) \<Rightarrow> (Inl e, self)
         | (Inr resp, self) \<Rightarrow>
             (case resp ''status'' of
                None \<Rightarrow> (Inl (KeyError ''status''), self)
              | Some status \<Rightarrow>
                  if status = PStr ''error'' then
                    (case resp ''command'' of
                       None \<Rightarrow> (Inl (KeyError ''command''), self)
                     | Some c \<Rightarrow> (Inl (CommandFailed c), self))
                  else
                    (case (resp ''response'', resp ''id'') of
                       (Some r, Some i) \<Rightarrow> (Inr (PDict [(''response'', r), (''id'', i)]), self)
                     | (Some r, None) \<Rightarrow> (Inr r, self)
                     | (None, Some i) \<Rightarrow> (Inr i, self)
                     | (None, None) \<Rightarrow> (Inr PNone, self))))"

section \<open>SampleHolderController\<close>

text \<open>
  The class extends \<open>ArduinoController\<close>. \<open>position\<close> and \<open>SPR\<close> are \<open>None\<close> after
  construction; \<open>enable\<close> stores what the device reports as the position, \<open>connect\<close> (which
  is not modelled) stores the steps per revolution. \<open>samples\<close> is the number of sample
  spaces, an integer given to the constructor.
\<close>

record controller = arduino +
  samples :: int
  position :: pyval
  SPR :: pyval
  DEFAULT_SPR :: pyval

definition controller_init ::
  "string \<Rightarrow> int \<Rightarrow> pyval \<Rightarrow> rat \<Rightarrow> rat \<Rightarrow> controller" where
  "controller_init prt n spr bd tmo =
     arduino.extend (arduino_init prt bd tmo 3 (Some [CHR 0x0A]))
       (controller.fields n PNone PNone spr)"

text \<open>
  The property \<open>sample\<close>. It reads the object and writes nothing; the three divisions and
  the addition raise on operands that are not numbers and on a zero divisor.
\<close>

definition sample :: "controller \<Rightarrow> error + int option" where
  "sample self =
     (if position self = PNone then Inr None
      else
        (case py_num (SPR self) of
           None \<Rightarrow> Inl TypeError
         | Some spr \<Rightarrow>
             if samples self = 0 then Inl ZeroDivisionError
             else
               (let s_width = spr / of_int (samples self);
                    offset = s_width / 2
                in case py_num (position self) of
                     None \<Rightarrow> Inl TypeError
                   | Some p \<Rightarrow>
                       if s_width = 0 then Inl ZeroDivisionError
                       else Inr (Some \<lfloor>(p + offset) / s_width\<rfloor>))))"

definition enable :: "pylib \<Rightarrow> controller \<Rightarrow> (unit, controller) outcome" where
  "enable L self =
     (case run L self ''enable'' [] of
        (Inl e, self) \<Rightarrow> (Inl e, self)
      | (Inr _, self) \<Rightarrow>
          (case run L self ''get_pos'' [] of
             (Inl e, self) \<Rightarrow> (Inl e, self)
           | (Inr pos, self) \<Rightarrow> (Inr (), self\<lparr>position := pos\<rparr>)))"

definition home :: "pylib \<Rightarrow> controller \<Rightarrow> (unit, controller) outcome" where
  "home L self =
     (case run L self ''home'' [] of
        (Inl e, self) \<Rightarrow> (Inl e, self)
      | (Inr _, self) \<Rightarrow> (Inr (), self\<lparr>position := PNum 0\<rparr>))"

definition is_enabled :: "pylib \<Rightarrow> controller \<Rightarrow> (bool, controller) outcome" where
  "is_enabled L self =
     (case run L self ''is_enabled'' [] of
        (Inl e, self) \<Rightarrow> (Inl e, self)
      | (Inr resp, self) \<Rightarrow> (Inr (resp = PStr ''1''), self))"

definition move :: "pylib \<Rightarrow> controller \<Rightarrow> rat \<Rightarrow> (unit, controller) outcome" where
  "move L self steps =
     (case is_enabled L self of
        (Inl e, self) \<Rightarrow> (Inl e, self)
      | (Inr enabled, self) \<Rightarrow>
          if \<not> enabled then (Inl NotEnabled, self)
          else
            (case run L self ''move'' [PNum steps] of
               (Inl e, self) \<Rightarrow> (Inl e, self)
             | (Inr _, self) \<Rightarrow>
                 (case (py_num (position self), py_num (SPR self)) of
                    (Some p, Some spr) \<Rightarrow>
                      if spr = 0 then (Inl ZeroDivisionError, self)
                      else (Inr (), self\<lparr>position := PNum (py_mod (p + steps) spr)\<rparr>)
                  | _ \<Rightarrow> (Inl TypeError, self))))"

definition step :: "pylib \<Rightarrow> controller \<Rightarrow> rat \<Rightarrow> (unit, controller) outcome" where
  "step L self num =
     (case py_num (SPR self) of
        None \<Rightarrow> (Inl TypeError, self)
      | Some spr \<Rightarrow>
          if samples self = 0 then (Inl ZeroDivisionError, self)
          else
            (let steps = num * (spr / of_int (samples self))
             in move L self steps))"

definition goto :: "pylib \<Rightarrow> controller \<Rightarrow> int \<Rightarrow> (unit, controller) outcome" where
  "goto L self num =
     (if num < 0 \<or> num > samples self then (Inl InvalidSample, self)
      else
        (case sample self of
           Inl e \<Rightarrow> (Inl e, self)
         | Inr None \<Rightarrow> (Inl TypeError, self)
         | Inr (Some s) \<Rightarrow>
             if samples self = 0 then (Inl ZeroDivisionError, self)
             else
               (let steps = (num - s) mod samples self;
                    steps = (if (of_int steps :: rat) > of_int (samples self) / 2
                             then steps - samples self else steps)
                in step L self (of_int steps))))"

definition offset :: "pylib \<Rightarrow> controller \<Rightarrow> rat \<Rightarrow> (unit, controller) outcome" where
  "offset L self num =
     (let pos = position self
      in case move L self num of
           (Inl e, self) \<Rightarrow> (Inl e, self)
         | (Inr _, self) \<Rightarrow>
             (case run L self ''offset'' [PNum (- num)] of
                (Inl e, self) \<Rightarrow> (Inl e, self)
              | (Inr _, self) \<Rightarrow> (Inr (), self\<lparr>position := pos\<rparr>)))"

section \<open>Auxiliary definitions for stating and running the properties\<close>

text \<open>The bytes that \<open>run\<close> writes for a command: the frame around the name and the arguments.\<close>

definition command_text ::
  "pylib \<Rightarrow> 'a arduino_scheme \<Rightarrow> string \<Rightarrow> pyval list \<Rightarrow> string" where
  "command_text L self name args =
     ''run[ '' @ name @ concat (map (\<lambda>arg. '', '' @ str_format L arg) args) @ '' ]''
       @ (case termination_char self of None \<Rightarrow> [] | Some t \<Rightarrow> t)"

text \<open>A device that delivers a text one byte per read, with no idle read in between.\<close>

definition bytewise :: "string \<Rightarrow> string list" where
  "bytewise s = map (\<lambda>c. [c]) s"

text \<open>
  A library given by two finite tables (the texts the decoder accepts with the dictionary
  of each, and the values the formatter knows with the text of each), and a controller
  with a given position, sample count, steps per revolution and device output. They
  serve to run the model on concrete traffic.
\<close>

definition table_lib ::
  "(string \<times> (string \<times> pyval) list) list \<Rightarrow> (pyval \<times> string) list \<Rightarrow> pylib" where
  "table_lib texts fmts =
     \<lparr>json_loads = (\<lambda>s. map_option map_of (map_of texts s)),
      str_format = (\<lambda>v. case map_of fmts v of Some s \<Rightarrow> s | None \<Rightarrow> [])\<rparr>"

definition holder :: "pyval \<Rightarrow> int \<Rightarrow> pyval \<Rightarrow> string list \<Rightarrow> controller" where
  "holder pos n spr inc =
     (controller_init ''COM4'' n (PNum 200) 9600 10)
       \<lparr>position := pos, SPR := spr,
        p_inst := \<lparr>written = [], incoming = inc, delivered = []\<rparr>\<rparr>"

text \<open>Responses of the device, and a library that decodes them and formats the arguments used.\<close>

definition ok_text :: string where
  \<open>ok_text = ''{"status":"ok"}''\<close>

definition one_text :: string where
  \<open>one_text = ''{"status":"ok","response":"1"}''\<close>

definition zero_text :: string where
  \<open>zero_text = ''{"status":"ok","response":"0"}''\<close>

definition err_text :: string where
  \<open>err_text = ''{"status":"error","command":"move"}''\<close>

definition pair_text :: string where
  \<open>pair_text = ''{"status":"ok","response":"7","id":"a"}''\<close>

definition at40_text :: string where
  \<open>at40_text = ''{"status":"ok","response":40}''\<close>

definition at250_text :: string where
  \<open>at250_text = ''{"status":"ok","response":250}''\<close>

definition demo_lib :: pylib where
  "demo_lib = table_lib
     [(ok_text, [(''status'', PStr ''ok'')]),
      (one_text, [(''status'', PStr ''ok''), (''response'', PStr ''1'')]),
      (zero_text, [(''status'', PStr ''ok''), (''response'', PStr ''0'')]),
      (err_text, [(''status'', PStr ''error''), (''command'', PStr ''move'')]),
      (pair_text, [(''status'', PStr ''ok''), (''response'', PStr ''7''), (''id'', PStr ''a'')]),
      (at40_text, [(''status'', PStr ''ok''), (''response'', PNum 40)]),
      (at250_text, [(''status'', PStr ''ok''), (''response'', PNum 250)])]
     [(PNum 0, ''0.0''), (PNum 5, ''5''), (PNum 15, ''15''), (PNum (- 15), ''-15''),
      (PNum 20, ''20.0''), (PNum 80, ''80.0''), (PNum (- 80), ''-80.0''), (PNum (1 / 2), ''0.5''),
      (PNum (25 / 2), ''12.5'')]"

text \<open>
  A caller's sequence of the operations that write the position, run until the first one
  that raises.
\<close>

datatype operation = Enable | Home | Move rat | Step rat | Goto int | Offset rat

fun exec :: "pylib \<Rightarrow> controller \<Rightarrow> operation \<Rightarrow> (unit, controller) outcome" where
  "exec L self Enable = enable L self"
| "exec L self Home = home L self"
| "exec L self (Move steps) = move L self steps"
| "exec L self (Step num) = step L self num"
| "exec L self (Goto num) = goto L self num"
| "exec L self (Offset num) = offset L self num"

fun exec_all :: "pylib \<Rightarrow> controller \<Rightarrow> operation list \<Rightarrow> (unit, controller) outcome" where
  "exec_all L self [] = (Inr (), self)"
| "exec_all L self (x # xs) =
     (case exec L self x of
        (Inl e, self) \<Rightarrow> (Inl e, self)
      | (Inr _, self) \<Rightarrow> exec_all L self xs)"

text \<open>
  The position is unknown or a number in \<open>[0, SPR)\<close>; the position, when a number, is
  integral. The argument of a \<open>move\<close> or a \<open>step\<close> is an integer of magnitude below
  \<open>2^50\<close>. Every position that an \<open>enable\<close> of the sequence takes over from the device
  is unknown or an integer in \<open>[0, SPR)\<close>: \<open>enable\<close> stores what the device reports and
  checks nothing.
\<close>

definition whole :: "rat \<Rightarrow> bool" where
  "whole r = (of_int \<lfloor>r\<rfloor> = r)"

definition in_range :: "controller \<Rightarrow> bool" where
  "in_range self =
     (case position self of
        PNone \<Rightarrow> True
      | PNum p \<Rightarrow> (case SPR self of PNum spr \<Rightarrow> 0 \<le> p \<and> p < spr | _ \<Rightarrow> False)
      | _ \<Rightarrow> False)"

definition integral :: "controller \<Rightarrow> bool" where
  "integral self = (case position self of PNum p \<Rightarrow> whole p | _ \<Rightarrow> True)"

fun exact_arg :: "operation \<Rightarrow> bool" where
  "exact_arg (Move steps) = (whole steps \<and> \<bar>steps\<bar> < 2 ^ 50)"
| "exact_arg (Step num) = (whole num \<and> \<bar>num\<bar> < 2 ^ 50)"
| "exact_arg _ = True"

fun reports_ok :: "pylib \<Rightarrow> controller \<Rightarrow> operation list \<Rightarrow> bool" where
  "reports_ok L self [] = True"
| "reports_ok L self (x # xs) =
     (case exec L self x of
        (Inl e, self') \<Rightarrow> True
      | (Inr _, self') \<Rightarrow>
          (if x = Enable then in_range self' \<and> integral self' else True)
          \<and> reports_ok L self' xs)"

text \<open>
  The answers of the device to a home, an enable (where it reports position 40), a move,
  a step, a goto and an offset.
\<close>

definition demo_traffic :: "string list" where
  "demo_traffic =
     bytewise ok_text
     @ bytewise ok_text @ bytewise at40_text
     @ bytewise one_text @ bytewise ok_text
     @ bytewise one_text @ bytewise ok_text
     @ bytewise one_text @ bytewise ok_text
     @ bytewise one_text @ bytewise ok_text @ bytewise ok_text"

text \<open>
  Reads that return no byte. \<open>idle_count\<close> counts them in a list of reads, consecutive or
  not. \<open>closes_within ra reads\<close>: a read equal to the closing brace comes while fewer
  than \<open>ra\<close> of the reads so far, itself included, have returned no byte.
  \<open>idle_runs n reads\<close>: some \<open>n\<close> consecutive reads all return no byte.
\<close>

definition idle_count :: "string list \<Rightarrow> int" where
  "idle_count reads = int (length (filter (\<lambda>c. c = []) reads))"

fun closes_within :: "int \<Rightarrow> string list \<Rightarrow> bool" where
  "closes_within ra [] = False"
| "closes_within ra (c # cs) =
     (0 < ra \<and> (c = ''}'' \<or> closes_within (if c = [] then ra - 1 else ra) cs))"

fun idle_runs :: "nat \<Rightarrow> string list \<Rightarrow> bool" where
  "idle_runs n [] = (n = 0)"
| "idle_runs n (c # cs) =
     ((n \<le> length (c # cs) \<and> list_all (\<lambda>c. c = []) (take n (c # cs))) \<or> idle_runs n cs)"

section \<open>Properties\<close>

lemmas fixture_defs = holder_def controller_init_def arduino_init_def table_lib_def
  bytewise_def arduino.extend_def controller.fields_def

subsection \<open>What an invocation changes\<close>

lemma foldl_cmd: "foldl (\<lambda>cmd arg. cmd @ f arg) acc args = acc @ concat (map f args)"
  by (induction args arbitrary: acc) simp_all

lemma read_loop_written:
  "read_loop ra resp cur a ch = ((r, a'), ch') \<Longrightarrow> written ch' = written ch"
proof (induction ra resp cur a ch rule: read_loop.induct)
  case (1 ra resp cur attempts ch)
  show ?case
  proof (cases "cur \<noteq> Some ''}'' \<and> attempts < ra")
    case True
    obtain c ch1 where rd: "serial_read ch = (c, ch1)" by (cases "serial_read ch")
    have w: "written ch1 = written ch"
      using rd by (auto simp: serial_read_def split: list.splits)
    from "1.prems" True rd
    have "read_loop ra (resp @ c) (Some c)
            (if length (resp @ c) = length resp then attempts + 1 else attempts) ch1
          = ((r, a'), ch')"
      by (subst (asm) read_loop.simps) simp
    from "1.IH"[OF True rd[symmetric] this] w show ?thesis by simp
  next
    case False
    with "1.prems" show ?thesis by (subst (asm) read_loop.simps) auto
  qed
qed

lemma read_response_frame:
  "read_response L self = (r, self') \<Longrightarrow>
     self' = self\<lparr>p_inst := p_inst self'\<rparr> \<and> written (p_inst self') = written (p_inst self)"
  by (auto simp: read_response_def split: prod.splits if_splits option.splits
           dest: read_loop_written)

lemma run_frame:
  assumes "run L self name args = (r, self')"
  shows "self' = self\<lparr>p_inst := p_inst self'\<rparr>"
    and "written (p_inst self') = written (p_inst self) @ [command_text L self name args]"
proof -
  let ?cmd = "command_text L self name args"
  let ?s1 = "self\<lparr>p_inst := serial_write ?cmd (p_inst self)\<rparr>"
  obtain rr s2 where rd: "read_response L ?s1 = (rr, s2)" by (cases "read_response L ?s1")
  have s': "self' = s2"
    using assms rd
    by (auto simp: run_def command_text_def foldl_cmd Let_def
             split: sum.splits option.splits if_splits)
  from read_response_frame[OF rd] have "s2 = ?s1\<lparr>p_inst := p_inst s2\<rparr>"
    and w: "written (p_inst s2) = written (p_inst ?s1)" by simp_all
  then show "self' = self\<lparr>p_inst := p_inst self'\<rparr>" using s' by simp
  show "written (p_inst self') = written (p_inst self) @ [?cmd]"
    using w s' by (simp add: serial_write_def)
qed

subsection \<open>The timeout property\<close>

text \<open>
  C10. The getter of the property \<open>timeout\<close> returns the stored baud rate: for a client
  constructed with baud rate \<open>b\<close> and timeout \<open>t\<close> it returns \<open>b\<close>, and when \<open>b\<close>
  differs from \<open>t\<close> it does not return the timeout the object stores.
\<close>

theorem timeout_returns_baud:
  "timeout (arduino_init p b t ra tc) = b \<and>
   (b \<noteq> t \<longrightarrow> timeout (arduino_init p b t ra tc) \<noteq> p_timeout (arduino_init p b t ra tc))"
  by (simp add: timeout_def arduino_init_def)

theorem timeout_returns_baud_witness:
  "(9600::rat) \<noteq> 2 \<and> timeout (arduino_init ''COM4'' 9600 2 3 None) = 9600 \<and>
   timeout (arduino_init ''COM4'' 9600 2 3 None) \<noteq> p_timeout (arduino_init ''COM4'' 9600 2 3 None)"
  using timeout_returns_baud [of "''COM4''" 9600 2 3 None] by simp

subsection \<open>The derived sample index\<close>

lemma sector_floor_range:
  fixes p w :: rat and n :: int
  assumes "0 < w" "0 < n" "0 \<le> p" "p < w * of_int n"
  shows "0 \<le> \<lfloor>(p + w / 2) / w\<rfloor>" and "\<lfloor>(p + w / 2) / w\<rfloor> \<le> n"
proof -
  have e: "(p + w / 2) / w = p / w + 1 / 2" using assms(1) by (simp add: field_simps)
  have "0 \<le> p / w" using assms by simp
  then show "0 \<le> \<lfloor>(p + w / 2) / w\<rfloor>" unfolding e by (simp add: zero_le_floor)
  have "p / w < of_int n" using assms by (simp add: pos_divide_less_eq mult.commute)
  then have "p / w + 1 / 2 < of_int (n + 1)" by simp
  then have "\<lfloor>p / w + 1 / 2\<rfloor> < n + 1" using floor_less_iff by blast
  then show "\<lfloor>(p + w / 2) / w\<rfloor> \<le> n" unfolding e by simp
qed

text \<open>
  What the property computes, in exact arithmetic: for a numeric position \<open>p\<close>, positive
  steps per revolution and a positive sample count it is \<open>floor((p + s_width/2) / s_width)\<close> with
  \<open>s_width = SPR / samples\<close>. The quotient is not reduced modulo the sample count, so for
  \<open>p\<close> in \<open>[0, SPR)\<close> the value lies in the closed range \<open>[0, samples]\<close>.
\<close>

lemma sample_value:
  assumes "position self = PNum p" and "SPR self = PNum spr"
    and "0 < spr" and "0 < samples self"
  shows "sample self
           = Inr (Some \<lfloor>(p + spr / of_int (samples self) / 2) / (spr / of_int (samples self))\<rfloor>)"
  using assms by (simp add: sample_def Let_def)

lemma sample_range:
  assumes "position self = PNum p" and "SPR self = PNum spr"
    and "0 < spr" and "0 < samples self" and "0 \<le> p" and "p < spr"
  shows "\<exists>s. sample self = Inr (Some s) \<and> 0 \<le> s \<and> s \<le> samples self"
proof -
  let ?w = "spr / of_int (samples self)"
  have w: "0 < ?w" using assms by simp
  have "?w * of_int (samples self) = spr" using assms by simp
  then show ?thesis
    using sample_value[OF assms(1-4)] sector_floor_range[OF w assms(4), of p] assms(5,6)
    by auto
qed

text \<open>
  C1. The claim gives the derived sample index as
  \<open>floor((p + sector_width/2) / sector_width) mod sample_count\<close>, in \<open>[0, sample_count)\<close>,
  and 0 at position 195 with 10 samples and 200 steps per revolution. The property
  \<open>sample\<close> leaves the reduction modulo the sample count out: at that position it
  returns 10, which numbers none of the 10 sample spaces.
\<close>

theorem sample_at_195:
  "sample (holder (PNum 195) 10 (PNum 200) []) = Inr (Some 10) \<and>
   sample (holder (PNum 195) 10 (PNum 200) [])
     \<noteq> Inr (Some (\<lfloor>((195::rat) + 200 / 10 / 2) / (200 / 10)\<rfloor> mod 10))"
  by code_simp

subsection \<open>The result of an invocation\<close>

lemmas run_eval = read_response_def read_loop.simps serial_read_def serial_write_def
  command_text_def fixture_defs demo_lib_def
  ok_text_def one_text_def zero_text_def err_text_def pair_text_def
  at40_text_def at250_text_def

lemma run_unfold:
  "run L self name args =
     (case read_response L
             (self\<lparr>p_inst := serial_write (command_text L self name args) (p_inst self)\<rparr>) of
        (Inl e, self) \<Rightarrow> (Inl e, self)
      | (Inr resp, self) \<Rightarrow>
          (case resp ''status'' of
             None \<Rightarrow> (Inl (KeyError ''status''), self)
           | Some status \<Rightarrow>
               if status = PStr ''error'' then
                 (case resp ''command'' of
                    None \<Rightarrow> (Inl (KeyError ''command''), self)
                  | Some c \<Rightarrow> (Inl (CommandFailed c), self))
               else
                 (case (resp ''response'', resp ''id'') of
                    (Some r, Some i) \<Rightarrow> (Inr (PDict [(''response'', r), (''id'', i)]), self)
                  | (Some r, None) \<Rightarrow> (Inr r, self)
                  | (None, Some i) \<Rightarrow> (Inr i, self)
                  | (None, None) \<Rightarrow> (Inr PNone, self))))"
  by (cases "termination_char self") (simp_all add: run_def command_text_def foldl_cmd Let_def)

text \<open>
  C6. When the decoded response of an invocation has status \<open>error\<close> (and echoes the
  command, as every response of the protocol does), \<open>run\<close> fails with the command error
  naming the echoed command. When the status is anything else, \<open>run\<close> returns the
  dictionary of \<open>response\<close> and \<open>id\<close> when both keys are present, the value of the one
  that is present when exactly one is, and \<open>None\<close> when neither is.
\<close>

theorem run_result:
  assumes "read_response L (self\<lparr>p_inst := serial_write (command_text L self name args) (p_inst self)\<rparr>)
             = (Inr resp, self')"
  shows "(resp ''status'' = Some (PStr ''error'') \<and> resp ''command'' = Some c \<longrightarrow>
            run L self name args = (Inl (CommandFailed c), self'))
       \<and> (resp ''status'' = Some st \<and> st \<noteq> PStr ''error'' \<longrightarrow>
            (resp ''response'' = Some r \<and> resp ''id'' = Some i \<longrightarrow>
               run L self name args = (Inr (PDict [(''response'', r), (''id'', i)]), self'))
          \<and> (resp ''response'' = Some r \<and> resp ''id'' = None \<longrightarrow>
               run L self name args = (Inr r, self'))
          \<and> (resp ''response'' = None \<and> resp ''id'' = Some i \<longrightarrow>
               run L self name args = (Inr i, self'))
          \<and> (resp ''response'' = None \<and> resp ''id'' = None \<longrightarrow>
               run L self name args = (Inr PNone, self')))"
  using assms by (simp add: run_unfold)

theorem run_result_witness:
  "fst (run demo_lib (holder PNone 10 (PNum 200) (bytewise err_text)) ''move'' [PNum 5])
     = Inl (CommandFailed (PStr ''move'')) \<and>
   fst (run demo_lib (holder PNone 10 (PNum 200) (bytewise pair_text)) ''get_id'' [])
     = Inr (PDict [(''response'', PStr ''7''), (''id'', PStr ''a'')])"
proof -
  let ?h1 = "holder PNone 10 (PNum 200) (bytewise err_text)"
  let ?h2 = "holder PNone 10 (PNum 200) (bytewise pair_text)"
  have "\<exists>resp self'.
      read_response demo_lib
        (?h1\<lparr>p_inst := serial_write (command_text demo_lib ?h1 ''move'' [PNum 5]) (p_inst ?h1)\<rparr>)
        = (Inr resp, self') \<and>
      resp ''status'' = Some (PStr ''error'') \<and> resp ''command'' = Some (PStr ''move'')"
    by (simp add: run_eval)
  then obtain resp1 s1 where
    r1: "read_response demo_lib
        (?h1\<lparr>p_inst := serial_write (command_text demo_lib ?h1 ''move'' [PNum 5]) (p_inst ?h1)\<rparr>)
        = (Inr resp1, s1)"
    and k1: "resp1 ''status'' = Some (PStr ''error'')" "resp1 ''command'' = Some (PStr ''move'')"
    by blast
  have "\<exists>resp self'.
      read_response demo_lib
        (?h2\<lparr>p_inst := serial_write (command_text demo_lib ?h2 ''get_id'' []) (p_inst ?h2)\<rparr>)
        = (Inr resp, self') \<and>
      resp ''status'' = Some (PStr ''ok'') \<and> resp ''response'' = Some (PStr ''7'')
      \<and> resp ''id'' = Some (PStr ''a'')"
    by (simp add: run_eval)
  then obtain resp2 s2 where
    r2: "read_response demo_lib
        (?h2\<lparr>p_inst := serial_write (command_text demo_lib ?h2 ''get_id'' []) (p_inst ?h2)\<rparr>)
        = (Inr resp2, s2)"
    and k2: "resp2 ''status'' = Some (PStr ''ok'')" "resp2 ''response'' = Some (PStr ''7'')"
      "resp2 ''id'' = Some (PStr ''a'')"
    by blast
  from run_result [OF r1, of "PStr ''move''"] k1
  have a: "fst (run demo_lib ?h1 ''move'' [PNum 5]) = Inl (CommandFailed (PStr ''move''))"
    by simp
  from run_result [OF r2, of _ "PStr ''ok''" "PStr ''7''" "PStr ''a''"] k2
  have b: "fst (run demo_lib ?h2 ''get_id'' [])
             = Inr (PDict [(''response'', PStr ''7''), (''id'', PStr ''a'')])"
    by simp
  from a b show ?thesis by simp
qed

subsection \<open>The controller: what the queries leave unchanged\<close>

lemma run_fields:
  assumes "run L self name args = (r, self')"
  shows "position self' = position self" and "SPR self' = SPR self"
    and "samples self' = samples self" and "termination_char self' = termination_char self"
    and "read_attempts self' = read_attempts self"
proof -
  from run_frame(1)[OF assms] obtain ch where "self' = self\<lparr>p_inst := ch\<rparr>" by blast
  then show "position self' = position self" and "SPR self' = SPR self"
    and "samples self' = samples self" and "termination_char self' = termination_char self"
    and "read_attempts self' = read_attempts self"
    by simp_all
qed

lemma command_text_cong:
  "termination_char s = termination_char t \<Longrightarrow> command_text L s name args = command_text L t name args"
  by (simp add: command_text_def)

lemma is_enabled_frame:
  assumes "is_enabled L self = (r, s1)"
  shows "position s1 = position self" and "SPR s1 = SPR self" and "samples s1 = samples self"
    and "termination_char s1 = termination_char self"
    and "written (p_inst s1) = written (p_inst self) @ [command_text L self ''is_enabled'' []]"
proof -
  obtain rr s where rn: "run L self ''is_enabled'' [] = (rr, s)"
    by (cases "run L self ''is_enabled'' []")
  with assms have "s1 = s" by (auto simp: is_enabled_def split: sum.splits)
  with run_fields[OF rn] run_frame(2)[OF rn]
  show "position s1 = position self" and "SPR s1 = SPR self" and "samples s1 = samples self"
    and "termination_char s1 = termination_char self"
    and "written (p_inst s1) = written (p_inst self) @ [command_text L self ''is_enabled'' []]"
    by simp_all
qed

subsection \<open>goto takes the shorter way round\<close>

lemma goto_step:
  assumes "sample self = Inr (Some s)" and "0 \<le> num" and "num \<le> samples self"
    and "0 < samples self"
  shows "goto L self num =
      step L self (of_int (if (of_int ((num - s) mod samples self) :: rat) > of_int (samples self) / 2
                           then (num - s) mod samples self - samples self
                           else (num - s) mod samples self))"
  using assms by (simp add: goto_def Let_def)

text \<open>
  C4. For a current sample index \<open>s\<close> and a target \<open>num\<close> in \<open>[0, samples]\<close>, \<open>goto\<close>
  computes \<open>d = (num - s) mod samples\<close>, replaces it by \<open>d - samples\<close> when
  \<open>d > samples / 2\<close>, and is \<open>step(d)\<close>; the distance satisfies \<open>|d| \<le> samples / 2\<close>,
  whatever the parity of \<open>samples\<close>. From sample 2 with 10 samples, \<open>goto(8)\<close> is
  \<open>step(-4)\<close>.
\<close>

theorem goto_shortest:
  assumes "sample self = Inr (Some s)" and "0 \<le> num" and "num \<le> samples self"
    and "0 < samples self"
  shows "let d0 = (num - s) mod samples self;
             d = (if (of_int d0 :: rat) > of_int (samples self) / 2 then d0 - samples self else d0)
         in goto L self num = step L self (of_int d)
            \<and> \<bar>of_int d :: rat\<bar> \<le> of_int (samples self) / 2"
proof -
  let ?n = "samples self"
  let ?d0 = "(num - s) mod ?n"
  have r: "0 \<le> ?d0" "?d0 < ?n" using assms(4) by simp_all
  have c: "((of_int ?d0 :: rat) > of_int ?n / 2) = (2 * ?d0 > ?n)"
    by (simp add: field_simps) (metis of_int_less_iff of_int_mult of_int_numeral mult.commute)
  have g: "goto L self num =
      step L self (of_int (if (of_int ?d0 :: rat) > of_int ?n / 2 then ?d0 - ?n else ?d0))"
    by (rule goto_step[OF assms])
  have b: "\<bar>of_int (if 2 * ?d0 > ?n then ?d0 - ?n else ?d0) :: rat\<bar> \<le> of_int ?n / 2"
  proof -
    have "2 * \<bar>if 2 * ?d0 > ?n then ?d0 - ?n else ?d0\<bar> \<le> ?n" using r by auto
    then have "(of_int (2 * \<bar>if 2 * ?d0 > ?n then ?d0 - ?n else ?d0\<bar>) :: rat) \<le> of_int ?n"
      using of_int_le_iff by blast
    then show ?thesis by (simp add: field_simps)
  qed
  show ?thesis unfolding Let_def using g b c by simp
qed

theorem goto_shortest_witness:
  "sample (holder (PNum 40) 10 (PNum 200) []) = Inr (Some 2) \<and>
   (0::int) \<le> 8 \<and> 8 \<le> samples (holder (PNum 40) 10 (PNum 200) []) \<and>
   goto demo_lib (holder (PNum 40) 10 (PNum 200) []) 8
     = step demo_lib (holder (PNum 40) 10 (PNum 200) []) (- 4) \<and>
   \<bar>- 4 :: rat\<bar> \<le> 10 / 2"
proof -
  let ?h = "holder (PNum 40) 10 (PNum 200) []"
  have s: "sample ?h = Inr (Some 2)" by code_simp
  have n: "samples ?h = 10" by (simp add: fixture_defs)
  have h: "(0::int) \<le> 8" "8 \<le> samples ?h" "0 < samples ?h" by (simp_all add: n)
  from goto_shortest [OF s h, of demo_lib] show ?thesis using s by (simp add: n Let_def)
qed

subsection \<open>move and offset\<close>

lemma move_success:
  assumes "move L self steps = (Inr (), self')"
  shows "\<exists>s1 v s2 p spr.
           is_enabled L self = (Inr True, s1) \<and>
           run L s1 ''move'' [PNum steps] = (Inr v, s2) \<and>
           py_num (position self) = Some p \<and> py_num (SPR self) = Some spr \<and> spr \<noteq> 0 \<and>
           self' = s2\<lparr>position := PNum (py_mod (p + steps) spr)\<rparr>"
proof -
  obtain r1 s1 where e: "is_enabled L self = (r1, s1)" by (cases "is_enabled L self")
  obtain r2 s2 where m: "run L s1 ''move'' [PNum steps] = (r2, s2)"
    by (cases "run L s1 ''move'' [PNum steps]")
  note f1 = is_enabled_frame(1,2)[OF e] and f2 = run_fields(1,2)[OF m]
  from assms e m show ?thesis
    by (auto simp: move_def f1 f2 split: sum.splits if_splits option.splits)
qed

lemma move_written:
  assumes "move L self steps = (Inr (), self')"
  shows "written (p_inst self') = written (p_inst self) @
           [command_text L self ''is_enabled'' [], command_text L self ''move'' [PNum steps]]"
    and "termination_char self' = termination_char self"
    and "SPR self' = SPR self" and "samples self' = samples self"
proof -
  from move_success[OF assms] obtain s1 v s2 p spr where
    e: "is_enabled L self = (Inr True, s1)" and
    m: "run L s1 ''move'' [PNum steps] = (Inr v, s2)" and
    s: "self' = s2\<lparr>position := PNum (py_mod (p + steps) spr)\<rparr>" by blast
  have t: "termination_char s1 = termination_char self" by (rule is_enabled_frame(4)[OF e])
  show "written (p_inst self') = written (p_inst self) @
           [command_text L self ''is_enabled'' [], command_text L self ''move'' [PNum steps]]"
    using is_enabled_frame(5)[OF e] run_frame(2)[OF m] command_text_cong[OF t] s by simp
  show "termination_char self' = termination_char self"
    using run_fields(4)[OF m] t s by simp
  show "SPR self' = SPR self" using run_fields(2)[OF m] is_enabled_frame(2)[OF e] s by simp
  show "samples self' = samples self"
    using run_fields(3)[OF m] is_enabled_frame(3)[OF e] s by simp
qed

text \<open>
  C5. When \<open>offset(num)\<close> succeeds on a controller at position \<open>p\<close>, it has first made
  \<open>move(num)\<close>, which left the position at \<open>(p + num) mod SPR\<close>, then sent the
  command \<open>offset\<close> with the argument \<open>-num\<close>, and it ends with the position \<open>p\<close> again.
  The three commands written, in order, are \<open>is_enabled\<close> (the check of \<open>move\<close>),
  \<open>move\<close> with \<open>num\<close> and \<open>offset\<close> with \<open>-num\<close>.
\<close>

theorem offset_restores_position:
  assumes "offset L self num = (Inr (), self')"
    and "position self = PNum p" and "SPR self = PNum spr"
  shows "\<exists>mid. move L self num = (Inr (), mid)
           \<and> position mid = PNum (py_mod (p + num) spr)
           \<and> written (p_inst self') = written (p_inst self) @
                [command_text L self ''is_enabled'' [],
                 command_text L self ''move'' [PNum num],
                 command_text L self ''offset'' [PNum (- num)]]
           \<and> position self' = PNum p"
proof -
  obtain r1 mid where mv: "move L self num = (r1, mid)" by (cases "move L self num")
  obtain r2 s2 where rn: "run L mid ''offset'' [PNum (- num)] = (r2, s2)"
    by (cases "run L mid ''offset'' [PNum (- num)]")
  from assms(1) mv rn have ok: "r1 = Inr ()" and s': "self' = s2\<lparr>position := position self\<rparr>"
    by (auto simp: offset_def Let_def split: sum.splits)
  from mv ok have mv': "move L self num = (Inr (), mid)" by simp
  from move_success[OF mv'] assms(2,3) run_fields(1)
  have pm: "position mid = PNum (py_mod (p + num) spr)" by auto
  have w: "written (p_inst self') = written (p_inst self) @
                [command_text L self ''is_enabled'' [],
                 command_text L self ''move'' [PNum num],
                 command_text L self ''offset'' [PNum (- num)]]"
    using move_written(1,2)[OF mv'] run_frame(2)[OF rn] s'
      command_text_cong[OF move_written(2)[OF mv']] by simp
  from mv' pm w s' assms(2) show ?thesis by simp
qed

theorem offset_restores_position_witness:
  "fst (offset demo_lib
          (holder (PNum 50) 10 (PNum 200) (bytewise one_text @ bytewise ok_text @ bytewise ok_text))
          15) = Inr () \<and>
   position (snd (move demo_lib
          (holder (PNum 50) 10 (PNum 200) (bytewise one_text @ bytewise ok_text @ bytewise ok_text))
          15)) = PNum 65 \<and>
   written (p_inst (snd (offset demo_lib
          (holder (PNum 50) 10 (PNum 200) (bytewise one_text @ bytewise ok_text @ bytewise ok_text))
          15)))
     = [''run[ is_enabled ]'' @ [CHR 0x0A], ''run[ move, 15 ]'' @ [CHR 0x0A],
        ''run[ offset, -15 ]'' @ [CHR 0x0A]] \<and>
   position (snd (offset demo_lib
          (holder (PNum 50) 10 (PNum 200) (bytewise one_text @ bytewise ok_text @ bytewise ok_text))
          15)) = PNum 50"
proof -
  let ?h = "holder (PNum 50) 10 (PNum 200) (bytewise one_text @ bytewise ok_text @ bytewise ok_text)"
  have "fst (offset demo_lib ?h 15) = Inr ()" by code_simp
  then obtain s' where o: "offset demo_lib ?h 15 = (Inr (), s')"
    by (cases "offset demo_lib ?h 15") simp
  have h: "position ?h = PNum 50" "SPR ?h = PNum 200" by (simp_all add: fixture_defs)
  have m: "py_mod 65 200 = 65" by (simp add: py_mod_def floor_eq_iff)
  have c: "command_text demo_lib ?h ''is_enabled'' [] = ''run[ is_enabled ]'' @ [CHR 0x0A]"
    "command_text demo_lib ?h ''move'' [PNum 15] = ''run[ move, 15 ]'' @ [CHR 0x0A]"
    "command_text demo_lib ?h ''offset'' [PNum (- 15)] = ''run[ offset, -15 ]'' @ [CHR 0x0A]"
    by (simp_all add: run_eval)
  have w: "written (p_inst ?h) = []" by (simp add: fixture_defs)
  from offset_restores_position [OF o h] show ?thesis
    using o by (auto simp: m c w)
qed

subsection \<open>The enabled check of move\<close>

text \<open>
  C7 (as amended). \<open>move\<close> learns whether the motor is enabled by asking the device:
  \<open>is_enabled\<close> is an invocation. When that invocation succeeds with an answer other
  than \<open>"1"\<close>, \<open>move(steps)\<close> raises the not-enabled error after it: the \<open>is_enabled\<close>
  command is the one command written, no \<open>move\<close> command follows, and the position is
  unchanged.
\<close>

theorem move_not_enabled:
  assumes "is_enabled L self = (Inr False, s1)"
  shows "move L self steps = (Inl NotEnabled, s1)
       \<and> position s1 = position self
       \<and> written (p_inst s1) = written (p_inst self) @ [command_text L self ''is_enabled'' []]"
  using assms is_enabled_frame(1,5)[OF assms] by (simp add: move_def)

theorem move_not_enabled_witness:
  "is_enabled demo_lib (holder (PNum 50) 10 (PNum 200) (bytewise zero_text))
     = (Inr False, snd (is_enabled demo_lib (holder (PNum 50) 10 (PNum 200) (bytewise zero_text)))) \<and>
   fst (move demo_lib (holder (PNum 50) 10 (PNum 200) (bytewise zero_text)) 5) = Inl NotEnabled \<and>
   position (snd (move demo_lib (holder (PNum 50) 10 (PNum 200) (bytewise zero_text)) 5)) = PNum 50 \<and>
   written (p_inst (snd (move demo_lib (holder (PNum 50) 10 (PNum 200) (bytewise zero_text)) 5)))
     = [''run[ is_enabled ]'' @ [CHR 0x0A]]"
proof -
  let ?h = "holder (PNum 50) 10 (PNum 200) (bytewise zero_text)"
  have "fst (is_enabled demo_lib ?h) = Inr False" by code_simp
  then have e: "is_enabled demo_lib ?h = (Inr False, snd (is_enabled demo_lib ?h))"
    by (cases "is_enabled demo_lib ?h") simp
  have c: "command_text demo_lib ?h ''is_enabled'' [] = ''run[ is_enabled ]'' @ [CHR 0x0A]"
    by (simp add: run_eval)
  have h: "position ?h = PNum 50" "written (p_inst ?h) = []" by (simp_all add: fixture_defs)
  from move_not_enabled [OF e, of 5] e show ?thesis by (simp add: c h)
qed

text \<open>
  The claim as stated (the error is raised before any I/O) fails: on a device that
  answers \<open>"0"\<close>, \<open>move(5)\<close> raises the error after it has written the \<open>is_enabled\<close>
  command and read the bytes of the answer.
\<close>

theorem move_check_is_io:
  "fst (move demo_lib (holder (PNum 50) 10 (PNum 200) (bytewise zero_text)) 5) = Inl NotEnabled \<and>
   written (p_inst (snd (move demo_lib (holder (PNum 50) 10 (PNum 200) (bytewise zero_text)) 5)))
     = [''run[ is_enabled ]'' @ [CHR 0x0A]] \<and>
   delivered (p_inst (snd (move demo_lib (holder (PNum 50) 10 (PNum 200) (bytewise zero_text)) 5)))
     = bytewise zero_text \<and>
   written (p_inst (holder (PNum 50) 10 (PNum 200) (bytewise zero_text))) = [] \<and>
   delivered (p_inst (holder (PNum 50) 10 (PNum 200) (bytewise zero_text))) = []"
  by code_simp

subsection \<open>goto and the derived sample index\<close>

lemma py_mod_range:
  assumes "0 < m"
  shows "0 \<le> py_mod x m" and "py_mod x m < m"
proof -
  have "of_int \<lfloor>x / m\<rfloor> \<le> x / m" by simp
  then have "of_int \<lfloor>x / m\<rfloor> * m \<le> x" using assms by (simp only: pos_le_divide_eq)
  then show "0 \<le> py_mod x m" by (simp add: py_mod_def mult.commute)
  have "x / m < of_int \<lfloor>x / m\<rfloor> + 1" by linarith
  then have "x < (of_int \<lfloor>x / m\<rfloor> + 1) * m" using assms by (simp add: pos_divide_less_eq)
  then show "py_mod x m < m" by (simp add: py_mod_def algebra_simps)
qed

lemma move_position:
  assumes "move L self steps = (Inr (), self')"
    and "position self = PNum p" and "SPR self = PNum spr"
  shows "position self' = PNum (py_mod (p + steps) spr)"
  using move_success[OF assms(1)] assms(2,3) by auto

lemma step_success:
  assumes "step L self num = (Inr (), self')" and "SPR self = PNum spr"
  shows "move L self (num * (spr / of_int (samples self))) = (Inr (), self')"
  using assms by (auto simp: step_def Let_def split: if_splits)

lemma sector_shift:
  fixes p w :: rat and d n k :: int
  assumes "w \<noteq> 0"
  shows "\<lfloor>(p + of_int d * w - (of_int n * w) * of_int k + w / 2) / w\<rfloor>
           = \<lfloor>(p + w / 2) / w\<rfloor> + (d - n * k)"
proof -
  have "(p + of_int d * w - (of_int n * w) * of_int k + w / 2) / w
          = (p + w / 2) / w + of_int (d - n * k)"
    using assms by (simp add: field_simps)
  then have "\<lfloor>(p + of_int d * w - (of_int n * w) * of_int k + w / 2) / w\<rfloor>
               = \<lfloor>(p + w / 2) / w + of_int (d - n * k)\<rfloor>"
    by (simp only:)
  also have "\<dots> = \<lfloor>(p + w / 2) / w\<rfloor> + (d - n * k)" by (rule floor_add_int[symmetric])
  finally show ?thesis .
qed

text \<open>
  In exact arithmetic, after a successful \<open>goto(num)\<close> the derived index is congruent to
  \<open>num\<close> modulo the sample count, and lies in \<open>[0, samples]\<close>.
\<close>

lemma goto_sample_cong:
  assumes g: "goto L self num = (Inr (), self')"
    and p: "position self = PNum p" and spr: "SPR self = PNum spr"
    and pos: "0 < spr" and n: "0 < samples self"
    and r: "0 \<le> num" "num \<le> samples self"
  shows "\<exists>s'. sample self' = Inr (Some s') \<and> 0 \<le> s' \<and> s' \<le> samples self
              \<and> s' mod samples self = num mod samples self"
proof -
  let ?n = "samples self"
  let ?w = "spr / of_int ?n"
  let ?s = "\<lfloor>(p + ?w / 2) / ?w\<rfloor>"
  have w: "0 < ?w" using pos n by simp
  have nw: "of_int ?n * ?w = spr" using n by simp
  have s: "sample self = Inr (Some ?s)" by (rule sample_value[OF p spr pos n])
  define d where "d = (let d0 = (num - ?s) mod ?n
                       in if (of_int d0 :: rat) > of_int ?n / 2 then d0 - ?n else d0)"
  have dm: "d mod ?n = (num - ?s) mod ?n" by (simp add: d_def Let_def)
  from goto_step[OF s r n, of L] have "goto L self num = step L self (of_int d)"
    by (simp add: d_def Let_def)
  with g have "step L self (of_int d) = (Inr (), self')" by simp
  from step_success[OF this spr] have mv: "move L self (of_int d * ?w) = (Inr (), self')" .
  define k where "k = \<lfloor>(p + of_int d * ?w) / spr\<rfloor>"
  have "py_mod (p + of_int d * ?w) spr = p + of_int d * ?w - spr * of_int k"
    by (simp only: py_mod_def k_def)
  also have "\<dots> = p + of_int d * ?w - (of_int ?n * ?w) * of_int k" by (simp only: nw)
  finally have p': "position self' = PNum (p + of_int d * ?w - (of_int ?n * ?w) * of_int k)"
    using move_position[OF mv p spr] by simp
  have rng: "0 \<le> py_mod (p + of_int d * ?w) spr" "py_mod (p + of_int d * ?w) spr < spr"
    using py_mod_range[OF pos] by simp_all
  have p'': "position self' = PNum (py_mod (p + of_int d * ?w) spr)"
    by (rule move_position[OF mv p spr])
  have f: "SPR self' = PNum spr" "samples self' = ?n"
    using move_written(3,4)[OF mv] spr by simp_all
  have n': "0 < samples self'" using f n by simp
  from sample_range[OF p'' f(1) pos n' rng] obtain s' where
    s': "sample self' = Inr (Some s')" "0 \<le> s'" "s' \<le> ?n" using f by auto
  have wne: "?w \<noteq> 0" using pos n by simp
  have "sample self' = Inr (Some \<lfloor>(p + of_int d * ?w - (of_int ?n * ?w) * of_int k
            + spr / of_int (samples self') / 2) / (spr / of_int (samples self'))\<rfloor>)"
    by (rule sample_value[OF p' f(1) pos n'])
  then have "sample self' = Inr (Some \<lfloor>(p + of_int d * ?w - (of_int ?n * ?w) * of_int k
            + ?w / 2) / ?w\<rfloor>)"
    by (simp only: f(2))
  then have "sample self' = Inr (Some (?s + (d - ?n * k)))"
    by (simp only: sector_shift[OF wne])
  with s' have e: "s' = ?s + (d - ?n * k)" by simp
  have "?s + (d - ?n * k) = (?s + d) + ?n * (- k)" by (simp add: algebra_simps)
  then have "s' mod ?n = ((?s + d) + ?n * (- k)) mod ?n" using e by (simp only:)
  also have "\<dots> = (?s + d) mod ?n" by (simp only: mod_mult_self2)
  also have "\<dots> = (?s + d mod ?n) mod ?n" by (simp only: mod_add_right_eq)
  also have "\<dots> = (?s + (num - ?s) mod ?n) mod ?n" by (simp only: dm)
  also have "\<dots> = (?s + (num - ?s)) mod ?n" by (simp only: mod_add_right_eq)
  also have "\<dots> = num mod ?n" by simp
  finally have "s' mod ?n = num mod ?n" .
  with s' show ?thesis by blast
qed

text \<open>
  C3 (as amended). For every sample number \<open>num\<close> with \<open>0 < num < samples\<close>, when the
  steps per revolution are a positive multiple of the sample count and \<open>goto(num)\<close>
  succeeds from an integral position, the derived sample index afterwards is \<open>num\<close>.
  The position and the steps per revolution are of magnitude below \<open>2^50\<close>, where the
  doubles of the source compute what the rationals here do; from a position that is not
  an integer they need not.
\<close>

theorem goto_reaches_sample:
  assumes "goto L self num = (Inr (), self')"
    and "position self = PNum p" and "SPR self = PNum (of_int spr)"
    and "0 < spr" and "0 < samples self" and "samples self dvd spr"
    and "0 < num" and "num < samples self"
    and "whole p" and "\<bar>p\<bar> < 2 ^ 50" and "spr < 2 ^ 50"
  shows "sample self' = Inr (Some num)"
proof -
  have pos: "(0::rat) < of_int spr" using assms(4) by simp
  from goto_sample_cong[OF assms(1,2,3) pos assms(5)] assms(7,8)
  obtain s' where s': "sample self' = Inr (Some s')" "0 \<le> s'" "s' \<le> samples self"
    "s' mod samples self = num mod samples self" by auto
  have "num mod samples self = num" using assms(7,8) by simp
  with s' have m: "s' mod samples self = num" by simp
  have "s' \<noteq> samples self" using m assms(7) by auto
  with s' have "s' < samples self" by simp
  with s' m have "s' = num" by simp
  with s' show ?thesis by simp
qed

theorem goto_reaches_sample_witness:
  "fst (goto demo_lib (holder (PNum 40) 10 (PNum 200) (bytewise one_text @ bytewise ok_text)) 8)
     = Inr () \<and>
   (10::int) dvd 200 \<and> whole 40 \<and> \<bar>40 :: rat\<bar> < 2 ^ 50 \<and> (200::int) < 2 ^ 50 \<and>
   sample (snd (goto demo_lib
                  (holder (PNum 40) 10 (PNum 200) (bytewise one_text @ bytewise ok_text)) 8))
     = Inr (Some 8)"
proof -
  let ?h = "holder (PNum 40) 10 (PNum 200) (bytewise one_text @ bytewise ok_text)"
  have f: "fst (goto demo_lib ?h 8) = Inr ()" by code_simp
  then have g: "goto demo_lib ?h 8 = (Inr (), snd (goto demo_lib ?h 8))"
    by (cases "goto demo_lib ?h 8") simp
  have h: "position ?h = PNum 40" "SPR ?h = PNum (of_int 200)" "(0::int) < 200"
    "0 < samples ?h" "samples ?h dvd 200" "(0::int) < 8" "8 < samples ?h"
    "whole 40" "\<bar>40 :: rat\<bar> < 2 ^ 50" "(200::int) < 2 ^ 50"
    by (simp_all add: fixture_defs whole_def)
  from goto_reaches_sample [OF g h] f h(8,9,10) show ?thesis by simp
qed

text \<open>
  The claim as stated covers every \<open>num\<close> in \<open>[0, samples]\<close>. \<open>goto\<close> accepts
  \<open>num = samples\<close>, which is the position of sample 0: from position 0 with 10 samples
  and 200 steps per revolution, \<open>goto(10)\<close> succeeds and the derived index is 0, not 10.
\<close>

theorem goto_last_sample_number:
  "fst (goto demo_lib (holder (PNum 0) 10 (PNum 200) (bytewise one_text @ bytewise ok_text)) 10)
     = Inr () \<and>
   sample (snd (goto demo_lib
                  (holder (PNum 0) 10 (PNum 200) (bytewise one_text @ bytewise ok_text)) 10))
     = Inr (Some 0) \<and>
   sample (snd (goto demo_lib
                  (holder (PNum 0) 10 (PNum 200) (bytewise one_text @ bytewise ok_text)) 10))
     \<noteq> Inr (Some 10)"
  by code_simp

subsection \<open>The range of the motor position\<close>

lemma whole_iff: "whole r \<longleftrightarrow> (\<exists>z. r = of_int z)"
  unfolding whole_def by (rule of_int_floor_cancel)

lemma whole_py_mod:
  assumes "whole x" shows "whole (py_mod x (of_int m))"
proof -
  from assms obtain z where "x = of_int z" by (auto simp: whole_iff)
  then have "py_mod x (of_int m) = of_int (z - m * \<lfloor>x / of_int m\<rfloor>)"
    by (simp add: py_mod_def)
  then show ?thesis unfolding whole_iff by blast
qed

lemma whole_add: "whole a \<Longrightarrow> whole b \<Longrightarrow> whole (a + b)"
  unfolding whole_iff by (metis of_int_add)

lemma whole_steps:
  assumes "whole k" and "n dvd spr" and "n \<noteq> 0"
  shows "whole (k * (of_int spr / of_int n))"
proof -
  from assms(1) obtain z where z: "k = of_int z" by (auto simp: whole_iff)
  from assms(2) obtain q where q: "spr = n * q" by (auto simp: dvd_def)
  have "(of_int spr :: rat) / of_int n = of_int q" using assms(3) q by simp
  then have "k * (of_int spr / of_int n) = of_int (z * q)" using z by simp
  then show ?thesis unfolding whole_iff by blast
qed

text \<open>One successful move keeps the range, and keeps integrality for a whole step count.\<close>

lemma move_keeps:
  assumes mv: "move L self steps = (Inr (), self')"
    and spr: "SPR self = PNum (of_int spr)" and pos: "0 < spr" and r: "in_range self"
  shows "in_range self'" and "SPR self' = SPR self" and "samples self' = samples self"
    and "integral self \<Longrightarrow> whole steps \<Longrightarrow> integral self'"
proof -
  from move_success[OF mv] obtain p where "py_num (position self) = Some p" by blast
  with r have p: "position self = PNum p"
    by (auto simp: in_range_def split: pyval.splits)
  have p': "position self' = PNum (py_mod (p + steps) (of_int spr))"
    by (rule move_position[OF mv p spr])
  show s: "SPR self' = SPR self" and "samples self' = samples self"
    by (rule move_written(3,4)[OF mv])+
  have "(0::rat) < of_int spr" using pos by simp
  from py_mod_range[OF this, of "p + steps"] p' s spr show "in_range self'"
    by (simp add: in_range_def)
  show "integral self'" if "integral self" "whole steps"
    using that p p' whole_py_mod[OF whole_add] by (simp add: integral_def)
qed

lemma goto_success:
  assumes "goto L self num = (Inr (), self')"
  shows "\<exists>d. step L self (of_int d) = (Inr (), self')"
  using assms
  by (auto simp: goto_def Let_def simp del: of_int_diff split: if_splits sum.splits option.splits)

lemma offset_success:
  assumes "offset L self num = (Inr (), self')"
  shows "position self' = position self" and "SPR self' = SPR self"
    and "samples self' = samples self"
proof -
  obtain r1 mid where mv: "move L self num = (r1, mid)" by (cases "move L self num")
  obtain r2 s2 where rn: "run L mid ''offset'' [PNum (- num)] = (r2, s2)"
    by (cases "run L mid ''offset'' [PNum (- num)]")
  from assms mv rn have ok: "r1 = Inr ()" and s': "self' = s2\<lparr>position := position self\<rparr>"
    by (auto simp: offset_def Let_def split: sum.splits)
  from mv ok have mv': "move L self num = (Inr (), mid)" by simp
  show "position self' = position self" using s' by simp
  show "SPR self' = SPR self" using s' run_fields(2)[OF rn] move_written(3)[OF mv'] by simp
  show "samples self' = samples self"
    using s' run_fields(3)[OF rn] move_written(4)[OF mv'] by simp
qed

lemma home_success:
  assumes "home L self = (Inr (), self')"
  shows "position self' = PNum 0" and "SPR self' = SPR self" and "samples self' = samples self"
proof -
  obtain r s where rn: "run L self ''home'' [] = (r, s)" by (cases "run L self ''home'' []")
  with assms have "self' = s\<lparr>position := PNum 0\<rparr>"
    by (auto simp: home_def split: sum.splits)
  with run_fields(2,3)[OF rn]
  show "position self' = PNum 0" and "SPR self' = SPR self" and "samples self' = samples self"
    by simp_all
qed

lemma enable_success:
  assumes "enable L self = (Inr (), self')"
  shows "SPR self' = SPR self" and "samples self' = samples self"
proof -
  obtain r1 s1 where e: "run L self ''enable'' [] = (r1, s1)"
    by (cases "run L self ''enable'' []")
  obtain r2 s2 where g: "run L s1 ''get_pos'' [] = (r2, s2)"
    by (cases "run L s1 ''get_pos'' []")
  from assms e g obtain v where "self' = s2\<lparr>position := v\<rparr>"
    by (auto simp: enable_def split: sum.splits)
  with run_fields(2,3)[OF e] run_fields(2,3)[OF g]
  show "SPR self' = SPR self" and "samples self' = samples self" by simp_all
qed

text \<open>
  One successful operation keeps the range and the integrality of the position; for
  \<open>enable\<close> that is the condition on what the device reports.
\<close>

lemma exec_keeps:
  assumes ex: "exec L self x = (Inr (), self')"
    and spr: "SPR self = PNum (of_int spr)" and pos: "0 < spr" and n: "0 < samples self"
    and d: "samples self dvd spr" and r: "in_range self" and i: "integral self"
    and a: "exact_arg x"
    and en: "x = Enable \<Longrightarrow> in_range self' \<and> integral self'"
  shows "in_range self'" and "integral self'"
    and "SPR self' = SPR self" and "samples self' = samples self"
proof -
  have "in_range self' \<and> integral self' \<and> SPR self' = SPR self \<and> samples self' = samples self"
  proof (cases x)
    case Enable
    with ex have "enable L self = (Inr (), self')" by simp
    from enable_success[OF this] en[OF Enable] show ?thesis by simp
  next
    case Home
    with ex have h: "home L self = (Inr (), self')" by simp
    from home_success[OF h] spr pos show ?thesis
      by (simp add: in_range_def integral_def whole_def)
  next
    case (Move steps)
    with ex have m: "move L self steps = (Inr (), self')" by simp
    from move_keeps[OF m spr pos r] i a Move show ?thesis by simp
  next
    case (Step num)
    with ex have "step L self num = (Inr (), self')" by simp
    from step_success[OF this spr]
    have m: "move L self (num * (of_int spr / of_int (samples self))) = (Inr (), self')" .
    have "whole num" using a Step by simp
    from whole_steps[OF this d] n
    have "whole (num * (of_int spr / of_int (samples self)))" by simp
    with move_keeps[OF m spr pos r] i show ?thesis by simp
  next
    case (Goto num)
    with ex have "goto L self num = (Inr (), self')" by simp
    from goto_success[OF this] obtain k where "step L self (of_int k) = (Inr (), self')" by blast
    from step_success[OF this spr]
    have m: "move L self (of_int k * (of_int spr / of_int (samples self))) = (Inr (), self')" .
    have "whole (of_int k :: rat)" by (simp add: whole_def)
    from whole_steps[OF this d] n
    have "whole (of_int k * (of_int spr / of_int (samples self)))" by simp
    with move_keeps[OF m spr pos r] i show ?thesis by simp
  next
    case (Offset num)
    with ex have "offset L self num = (Inr (), self')" by simp
    from offset_success[OF this] r i show ?thesis
      by (auto simp: in_range_def integral_def split: pyval.splits)
  qed
  then show "in_range self'" and "integral self'"
    and "SPR self' = SPR self" and "samples self' = samples self"
    by simp_all
qed

text \<open>
  C8 (as amended). Let the steps per revolution be a positive integer below \<open>2^50\<close> and a
  multiple of the positive sample count, and let the position be unknown or an integer
  in \<open>[0, SPR)\<close>. After every successful sequence of \<open>enable\<close>, \<open>home\<close>, \<open>move\<close>, \<open>step\<close>,
  \<open>goto\<close> and \<open>offset\<close> in which the arguments of \<open>move\<close> and \<open>step\<close> are integers of
  magnitude below \<open>2^50\<close> and every position that an \<open>enable\<close> takes over from the device
  is unknown or an integer in \<open>[0, SPR)\<close>, the position is again unknown or an integer in
  \<open>[0, SPR)\<close>.
\<close>

theorem position_stays_in_range:
  assumes "exec_all L self ops = (Inr (), self')"
    and "SPR self = PNum (of_int spr)" and "0 < spr" and "spr < 2 ^ 50"
    and "0 < samples self" and "samples self dvd spr"
    and "in_range self" and "integral self"
    and "list_all exact_arg ops" and "reports_ok L self ops"
  shows "in_range self' \<and> integral self'"
  using assms
proof (induction ops arbitrary: self)
  case Nil
  then show ?case by simp
next
  case (Cons x xs)
  obtain r s where e: "exec L self x = (r, s)" by (cases "exec L self x")
  with Cons.prems(1) have ok: "exec L self x = (Inr (), s)" and
    rest: "exec_all L s xs = (Inr (), self')"
    by (auto split: sum.splits)
  from Cons.prems(10) ok have en: "x = Enable \<Longrightarrow> in_range s \<and> integral s"
    and rep: "reports_ok L s xs"
    by (auto split: if_splits)
  from Cons.prems(9) have a: "exact_arg x" and as: "list_all exact_arg xs" by simp_all
  note k = exec_keeps[OF ok Cons.prems(2,3,5,6,7,8) a en]
  have spr': "SPR s = PNum (of_int spr)" using k(3) Cons.prems(2) by simp
  have n': "0 < samples s" "samples s dvd spr" using k(4) Cons.prems(5,6) by simp_all
  from Cons.IH[OF rest spr' Cons.prems(3,4) n' k(1,2) as rep] show ?case .
qed

theorem position_stays_in_range_witness:
  "fst (exec_all demo_lib (holder PNone 10 (PNum 200) demo_traffic)
          [Home, Enable, Move 15, Step 1, Goto 8, Offset 15]) = Inr () \<and>
   (200::int) < 2 ^ 50 \<and> (10::int) dvd 200 \<and>
   in_range (holder PNone 10 (PNum 200) demo_traffic) \<and>
   integral (holder PNone 10 (PNum 200) demo_traffic) \<and>
   list_all exact_arg [Home, Enable, Move 15, Step 1, Goto 8, Offset 15] \<and>
   reports_ok demo_lib (holder PNone 10 (PNum 200) demo_traffic)
     [Home, Enable, Move 15, Step 1, Goto 8, Offset 15] \<and>
   in_range (snd (exec_all demo_lib (holder PNone 10 (PNum 200) demo_traffic)
                    [Home, Enable, Move 15, Step 1, Goto 8, Offset 15])) \<and>
   integral (snd (exec_all demo_lib (holder PNone 10 (PNum 200) demo_traffic)
                    [Home, Enable, Move 15, Step 1, Goto 8, Offset 15])) \<and>
   position (snd (exec_all demo_lib (holder PNone 10 (PNum 200) demo_traffic)
                    [Home, Enable, Move 15, Step 1, Goto 8, Offset 15])) = PNum 155"
proof -
  let ?h = "holder PNone 10 (PNum 200) demo_traffic"
  let ?ops = "[Home, Enable, Move 15, Step 1, Goto 8, Offset 15]"
  have f: "fst (exec_all demo_lib ?h ?ops) = Inr ()" by code_simp
  then have e: "exec_all demo_lib ?h ?ops = (Inr (), snd (exec_all demo_lib ?h ?ops))"
    by (cases "exec_all demo_lib ?h ?ops") simp
  have p: "position (snd (exec_all demo_lib ?h ?ops)) = PNum 155" by code_simp
  have h: "SPR ?h = PNum (of_int 200)" "(0::int) < 200" "(200::int) < 2 ^ 50"
    "0 < samples ?h" "samples ?h dvd 200" "in_range ?h" "integral ?h"
    by (simp_all add: fixture_defs in_range_def integral_def)
  have a: "list_all exact_arg ?ops" by (simp add: whole_def)
  have r: "reports_ok demo_lib ?h ?ops" by code_simp
  from position_stays_in_range [OF e h a r] f p h(3,6,7) a r show ?thesis by simp
qed

text \<open>
  The claim as stated (every operation keeps the position an integer in \<open>[0, SPR)\<close>, for
  every \<open>SPR > 0\<close> and sample count \<open>> 0\<close>) fails three times over, at inputs where the
  doubles of the source are exact. With 16 samples and 200 steps per revolution,
  \<open>step(1)\<close> from position 0 leaves the position \<open>12.5\<close>. \<open>enable\<close> on a device that
  reports position 250 leaves the position 250 with 200 steps per revolution. And
  \<open>move(0.5)\<close> from position 0 leaves the position \<open>0.5\<close>.
\<close>

theorem position_leaves_integers:
  "fst (step demo_lib (holder (PNum 0) 16 (PNum 200) (bytewise one_text @ bytewise ok_text)) 1)
     = Inr () \<and>
   position (snd (step demo_lib
                    (holder (PNum 0) 16 (PNum 200) (bytewise one_text @ bytewise ok_text)) 1))
     = PNum (25 / 2) \<and>
   \<not> integral (snd (step demo_lib
                    (holder (PNum 0) 16 (PNum 200) (bytewise one_text @ bytewise ok_text)) 1)) \<and>
   fst (enable demo_lib (holder PNone 10 (PNum 200) (bytewise ok_text @ bytewise at250_text)))
     = Inr () \<and>
   position (snd (enable demo_lib
                    (holder PNone 10 (PNum 200) (bytewise ok_text @ bytewise at250_text))))
     = PNum 250 \<and>
   \<not> in_range (snd (enable demo_lib
                    (holder PNone 10 (PNum 200) (bytewise ok_text @ bytewise at250_text)))) \<and>
   fst (move demo_lib (holder (PNum 0) 10 (PNum 200) (bytewise one_text @ bytewise ok_text))
          (1 / 2)) = Inr () \<and>
   position (snd (move demo_lib
                    (holder (PNum 0) 10 (PNum 200) (bytewise one_text @ bytewise ok_text))
                    (1 / 2)))
     = PNum (1 / 2) \<and>
   \<not> integral (snd (move demo_lib
                    (holder (PNum 0) 10 (PNum 200) (bytewise one_text @ bytewise ok_text))
                    (1 / 2)))"
  by code_simp

subsection \<open>The decode loop\<close>

lemma closes_within_pos: "closes_within ra cs \<Longrightarrow> 0 < ra"
  by (cases cs) simp_all

lemma closes_within_iff:
  "closes_within ra cs \<longleftrightarrow>
     (\<exists>pre rest. cs = pre @ ''}'' # rest \<and> ''}'' \<notin> set pre \<and> idle_count pre < ra)"
proof (induction cs arbitrary: ra)
  case Nil
  then show ?case by simp
next
  case (Cons c cs)
  show ?case
  proof (cases "c = ''}''")
    case True
    have "(\<exists>pre rest. c # cs = pre @ ''}'' # rest \<and> ''}'' \<notin> set pre \<and> idle_count pre < ra)
            \<longleftrightarrow> 0 < ra"
    proof
      assume "\<exists>pre rest. c # cs = pre @ ''}'' # rest \<and> ''}'' \<notin> set pre \<and> idle_count pre < ra"
      then obtain pre rest where h: "c # cs = pre @ ''}'' # rest" "''}'' \<notin> set pre"
        "idle_count pre < ra" by blast
      from h(1,2) True have "pre = []" by (cases pre) auto
      with h(3) show "0 < ra" by (simp add: idle_count_def)
    next
      assume "0 < ra"
      with True have "c # cs = [] @ ''}'' # cs \<and> ''}'' \<notin> set [] \<and> idle_count [] < ra"
        by (simp add: idle_count_def)
      then show "\<exists>pre rest. c # cs = pre @ ''}'' # rest \<and> ''}'' \<notin> set pre \<and> idle_count pre < ra"
        by blast
    qed
    with True show ?thesis by simp
  next
    case False
    let ?ra' = "if c = [] then ra - 1 else ra"
    have ic: "idle_count (c # pre) < ra \<longleftrightarrow> idle_count pre < ?ra'" for pre
      by (auto simp: idle_count_def)
    have "(\<exists>pre rest. c # cs = pre @ ''}'' # rest \<and> ''}'' \<notin> set pre \<and> idle_count pre < ra)
            \<longleftrightarrow> (\<exists>pre rest. cs = pre @ ''}'' # rest \<and> ''}'' \<notin> set pre \<and> idle_count pre < ?ra')"
    proof
      assume "\<exists>pre rest. c # cs = pre @ ''}'' # rest \<and> ''}'' \<notin> set pre \<and> idle_count pre < ra"
      then obtain pre rest where h: "c # cs = pre @ ''}'' # rest" "''}'' \<notin> set pre"
        "idle_count pre < ra" by blast
      from h(1) False obtain pre' where p: "pre = c # pre'" by (cases pre) auto
      with h have "cs = pre' @ ''}'' # rest \<and> ''}'' \<notin> set pre' \<and> idle_count pre' < ?ra'"
        using ic by auto
      then show "\<exists>pre rest. cs = pre @ ''}'' # rest \<and> ''}'' \<notin> set pre \<and> idle_count pre < ?ra'"
        by blast
    next
      assume "\<exists>pre rest. cs = pre @ ''}'' # rest \<and> ''}'' \<notin> set pre \<and> idle_count pre < ?ra'"
      then obtain pre rest where h: "cs = pre @ ''}'' # rest" "''}'' \<notin> set pre"
        "idle_count pre < ?ra'" by blast
      then have "c # cs = (c # pre) @ ''}'' # rest \<and> ''}'' \<notin> set (c # pre)
                   \<and> idle_count (c # pre) < ra"
        using False ic by auto
      then show "\<exists>pre rest. c # cs = pre @ ''}'' # rest \<and> ''}'' \<notin> set pre \<and> idle_count pre < ra"
        by blast
    qed
    moreover have "0 \<le> idle_count pre" for pre by (simp add: idle_count_def)
    ultimately have "(\<exists>pre rest. c # cs = pre @ ''}'' # rest \<and> ''}'' \<notin> set pre \<and> idle_count pre < ra)
            \<longleftrightarrow> closes_within ?ra' cs"
      using Cons.IH[of ?ra'] by simp
    moreover have "closes_within ?ra' cs \<Longrightarrow> 0 < ra"
      using closes_within_pos[of ?ra' cs] by (auto split: if_splits)
    ultimately show ?thesis using False by auto
  qed
qed

text \<open>The attempts counter when the loop stops.\<close>

lemma read_loop_attempts:
  "cur \<noteq> Some ''}'' \<Longrightarrow> a \<le> ra \<Longrightarrow>
     (snd (fst (read_loop ra resp cur a ch)) = ra) = (\<not> closes_within (ra - a) (incoming ch))"
proof (induction ra resp cur a ch rule: read_loop.induct)
  case (1 ra resp cur attempts ch)
  show ?case
  proof (cases "attempts < ra")
    case False
    with "1.prems" have "attempts = ra" by simp
    moreover have "\<not> closes_within 0 (incoming ch)" using closes_within_pos by blast
    ultimately show ?thesis by (subst read_loop.simps) simp
  next
    case True
    obtain c ch1 where rd: "serial_read ch = (c, ch1)" by (cases "serial_read ch")
    let ?a1 = "if length (resp @ c) = length resp then attempts + 1 else attempts"
    have a1: "?a1 = (if c = [] then attempts + 1 else attempts)" by simp
    have unf: "read_loop ra resp cur attempts ch = read_loop ra (resp @ c) (Some c) ?a1 ch1"
      using True "1.prems"(1) rd by (subst read_loop.simps) simp
    show ?thesis
    proof (cases "c = ''}''")
      case cb: True
      then have "read_loop ra (resp @ c) (Some c) ?a1 ch1 = ((resp @ c, attempts), ch1)"
        by (subst read_loop.simps) simp
      moreover have "incoming ch = c # incoming ch1"
        using rd cb by (auto simp: serial_read_def split: list.splits)
      ultimately show ?thesis using unf True cb by simp
    next
      case False
      have le: "?a1 \<le> ra" using True by simp
      have cur': "Some c \<noteq> Some ''}''" using False by simp
      have ih: "(snd (fst (read_loop ra (resp @ c) (Some c) ?a1 ch1)) = ra)
                  = (\<not> closes_within (ra - ?a1) (incoming ch1))"
        using "1.IH"[OF _ rd[symmetric] cur' le] True "1.prems"(1) by simp
      show ?thesis
      proof (cases "incoming ch")
        case Nil
        with rd have "c = []" "incoming ch1 = []" by (auto simp: serial_read_def)
        with ih unf Nil show ?thesis by simp
      next
        case (Cons x xs)
        with rd have "c = x" "incoming ch1 = xs" by (auto simp: serial_read_def)
        with ih unf Cons False True show ?thesis by (auto simp: a1 diff_diff_eq)
      qed
    qed
  qed
qed

text \<open>On a channel that yields no byte the loop makes the remaining idle reads and stops.\<close>

lemma read_loop_silent:
  "cur \<noteq> Some ''}'' \<Longrightarrow> a \<le> ra \<Longrightarrow> list_all (\<lambda>c. c = []) (incoming ch) \<Longrightarrow>
     fst (read_loop ra resp cur a ch) = (resp, ra) \<and>
     delivered (snd (read_loop ra resp cur a ch))
       = delivered ch @ replicate (nat (ra - a)) []"
proof (induction ra resp cur a ch rule: read_loop.induct)
  case (1 ra resp cur attempts ch)
  show ?case
  proof (cases "attempts < ra")
    case False
    with "1.prems" have "attempts = ra" by simp
    then show ?thesis by (subst (1 2) read_loop.simps) simp
  next
    case True
    obtain c ch1 where rd: "serial_read ch = (c, ch1)" by (cases "serial_read ch")
    from rd "1.prems"(3) have c: "c = []" and ch1: "list_all (\<lambda>c. c = []) (incoming ch1)"
      and d: "delivered ch1 = delivered ch @ [[]]"
      by (auto simp: serial_read_def split: list.splits)
    have unf: "read_loop ra resp cur attempts ch = read_loop ra resp (Some []) (attempts + 1) ch1"
      using True "1.prems"(1) rd c by (subst read_loop.simps) simp
    have cur': "Some c \<noteq> Some ''}''" using c by simp
    have le: "(if length (resp @ c) = length resp then attempts + 1 else attempts) \<le> ra"
      using True by simp
    have "fst (read_loop ra resp (Some []) (attempts + 1) ch1) = (resp, ra) \<and>
          delivered (snd (read_loop ra resp (Some []) (attempts + 1) ch1))
            = delivered ch1 @ replicate (nat (ra - (attempts + 1))) []"
      using "1.IH"[OF _ rd[symmetric] cur' le ch1] True "1.prems"(1) c by simp
    moreover have "[[]] @ replicate (nat (ra - (attempts + 1))) ([]::string)
                     = replicate (nat (ra - attempts)) []"
    proof -
      have "nat (ra - attempts) = Suc (nat (ra - (attempts + 1)))" using True by simp
      then show ?thesis by simp
    qed
    ultimately show ?thesis using unf d by simp
  qed
qed

text \<open>
  When the channel delivers the bytes \<open>bs\<close> one per read and a closing brace is among
  them, the loop stops at the first closing brace, with the bytes up to it in the buffer
  and the attempts counter untouched.
\<close>

lemma read_loop_bytewise:
  "cur \<noteq> Some ''}'' \<Longrightarrow> a < ra \<Longrightarrow> CHR ''}'' \<in> set bs \<Longrightarrow>
   incoming ch = bytewise bs @ rest \<Longrightarrow>
     fst (read_loop ra resp cur a ch)
       = (resp @ takeWhile (\<lambda>b. b \<noteq> CHR ''}'') bs @ ''}'', a)"
proof (induction bs arbitrary: resp cur ch)
  case Nil
  then show ?case by simp
next
  case (Cons b bs)
  let ?ch1 = "ch\<lparr>incoming := bytewise bs @ rest, delivered := delivered ch @ [[b]]\<rparr>"
  have rd: "serial_read ch = ([b], ?ch1)"
    using Cons.prems(4) by (simp add: serial_read_def bytewise_def)
  have unf: "read_loop ra resp cur a ch = read_loop ra (resp @ [b]) (Some [b]) a ?ch1"
    using Cons.prems(1,2) rd by (subst read_loop.simps) simp
  show ?case
  proof (cases "b = CHR ''}''")
    case True
    then have "read_loop ra (resp @ [b]) (Some [b]) a ?ch1 = ((resp @ [b], a), ?ch1)"
      by (subst read_loop.simps) simp
    with unf True show ?thesis by simp
  next
    case False
    with Cons.prems(3) have m: "CHR ''}'' \<in> set bs" by simp
    have c: "Some [b] \<noteq> Some ''}''" using False by simp
    have "fst (read_loop ra (resp @ [b]) (Some [b]) a ?ch1)
            = ((resp @ [b]) @ takeWhile (\<lambda>b. b \<noteq> CHR ''}'') bs @ ''}'', a)"
      by (rule Cons.IH[OF c Cons.prems(2) m]) simp
    with unf False show ?thesis by simp
  qed
qed

lemma read_response_timeout_iff:
  assumes "0 \<le> read_attempts self"
  shows "(\<exists>buf. fst (read_response L self) = Inl (ReadTimeout buf))
           \<longleftrightarrow> \<not> closes_within (read_attempts self) (incoming (p_inst self))"
proof -
  have "(snd (fst (read_loop (read_attempts self) [] None 0 (p_inst self))) = read_attempts self)
          = (\<not> closes_within (read_attempts self - 0) (incoming (p_inst self)))"
    by (rule read_loop_attempts) (use assms in simp_all)
  then show ?thesis
    by (auto simp: read_response_def split: prod.splits option.splits)
qed

lemma run_timeout:
  assumes "fst (run L self name args) = Inl (ReadTimeout buf)"
  shows "fst (read_response L
           (self\<lparr>p_inst := serial_write (command_text L self name args) (p_inst self)\<rparr>))
         = Inl (ReadTimeout buf)"
  using assms
  by (auto simp: run_unfold split: prod.splits sum.splits option.splits if_splits)

text \<open>
  What the loop has read when it stops: the buffer is the reads of the call put together,
  and the attempts counter has grown by the number of reads that returned no byte.
\<close>

lemma read_loop_trace:
  "\<exists>ds. delivered (snd (read_loop ra resp cur a ch)) = delivered ch @ ds \<and>
        fst (fst (read_loop ra resp cur a ch)) = resp @ concat ds \<and>
        snd (fst (read_loop ra resp cur a ch)) = a + idle_count ds"
proof (induction ra resp cur a ch rule: read_loop.induct)
  case (1 ra resp cur attempts ch)
  show ?case
  proof (cases "cur \<noteq> Some ''}'' \<and> attempts < ra")
    case False
    then have "read_loop ra resp cur attempts ch = ((resp, attempts), ch)"
      by (subst read_loop.simps) auto
    then have "delivered (snd (read_loop ra resp cur attempts ch)) = delivered ch @ [] \<and>
        fst (fst (read_loop ra resp cur attempts ch)) = resp @ concat [] \<and>
        snd (fst (read_loop ra resp cur attempts ch)) = attempts + idle_count []"
      by (simp add: idle_count_def)
    then show ?thesis by blast
  next
    case True
    obtain c ch1 where rd: "serial_read ch = (c, ch1)" by (cases "serial_read ch")
    let ?a1 = "if length (resp @ c) = length resp then attempts + 1 else attempts"
    let ?R = "read_loop ra (resp @ c) (Some c) ?a1 ch1"
    have unf: "read_loop ra resp cur attempts ch = ?R"
      using True rd by (subst read_loop.simps) simp
    have d: "delivered ch1 = delivered ch @ [c]"
      using rd by (auto simp: serial_read_def split: list.splits)
    from "1.IH"[OF True rd[symmetric]] obtain ds where
      ds: "delivered (snd ?R) = delivered ch1 @ ds" "fst (fst ?R) = (resp @ c) @ concat ds"
        "snd (fst ?R) = ?a1 + idle_count ds" by blast
    have "?a1 + idle_count ds = attempts + idle_count (c # ds)"
      by (simp add: idle_count_def)
    with ds d have "delivered (snd ?R) = delivered ch @ (c # ds) \<and>
        fst (fst ?R) = resp @ concat (c # ds) \<and>
        snd (fst ?R) = attempts + idle_count (c # ds)"
      by simp
    then show ?thesis unfolding unf by blast
  qed
qed

text \<open>
  When a closing brace comes before the idle reads reach the limit, the loop stops at
  it, with everything read so far in the buffer.
\<close>

lemma read_loop_closes:
  "cur \<noteq> Some ''}'' \<Longrightarrow> incoming ch = pre @ ''}'' # rest \<Longrightarrow> ''}'' \<notin> set pre \<Longrightarrow>
   a + idle_count pre < ra \<Longrightarrow>
     fst (read_loop ra resp cur a ch) = (resp @ concat pre @ ''}'', a + idle_count pre)"
proof (induction pre arbitrary: resp cur a ch)
  case Nil
  let ?ch1 = "ch\<lparr>incoming := rest, delivered := delivered ch @ [''}'']\<rparr>"
  have rd: "serial_read ch = (''}'', ?ch1)" using Nil.prems(2) by (simp add: serial_read_def)
  have "a < ra" using Nil.prems(4) by (simp add: idle_count_def)
  then have "read_loop ra resp cur a ch = read_loop ra (resp @ ''}'') (Some ''}'') a ?ch1"
    using Nil.prems(1) rd by (subst read_loop.simps) simp
  also have "\<dots> = ((resp @ ''}'', a), ?ch1)" by (subst read_loop.simps) simp
  finally show ?case by (simp add: idle_count_def)
next
  case (Cons c pre)
  let ?ch1 = "ch\<lparr>incoming := pre @ ''}'' # rest, delivered := delivered ch @ [c]\<rparr>"
  let ?a1 = "if c = [] then a + 1 else a"
  have rd: "serial_read ch = (c, ?ch1)" using Cons.prems(2) by (simp add: serial_read_def)
  have i: "a + idle_count (c # pre) = ?a1 + idle_count pre" by (simp add: idle_count_def)
  have "0 \<le> idle_count pre" by (simp add: idle_count_def)
  with Cons.prems(4) i have "a < ra" by (auto split: if_splits)
  then have unf: "read_loop ra resp cur a ch = read_loop ra (resp @ c) (Some c) ?a1 ?ch1"
    using Cons.prems(1) rd by (subst read_loop.simps) simp
  have c: "Some c \<noteq> Some ''}''" using Cons.prems(3) by auto
  have "fst (read_loop ra (resp @ c) (Some c) ?a1 ?ch1)
          = ((resp @ c) @ concat pre @ ''}'', ?a1 + idle_count pre)"
    by (rule Cons.IH[OF c]) (use Cons.prems(3,4) i in simp_all)
  with unf i show ?case by simp
qed

text \<open>
  C2 (as amended). \<open>read_response\<close> reads one byte at a time and appends what it reads to
  the buffer. With \<open>read_attempts \<ge> 0\<close>:
  \<^item> when a read equal to \<open>}\<close> comes after fewer than \<open>read_attempts\<close> reads that returned
    no byte, the loop stops at that read and the buffer (everything read up to the
    brace) goes to the decoder;
  \<^item> it fails with the read-timeout error exactly when no closing brace comes that early,
    that is when the reads that return no byte, counted over the whole call whether
    consecutive or not, reach \<open>read_attempts\<close> first;
  \<^item> the error carries the buffer, which is the reads of the call put together, and
    exactly \<open>read_attempts\<close> of those reads returned no byte;
  \<^item> on a channel that yields no byte it fails after exactly \<open>read_attempts\<close> idle reads.
\<close>

theorem read_response_timeout:
  assumes "0 \<le> read_attempts self"
  shows
    "(incoming (p_inst self) = pre @ ''}'' # rest \<and> ''}'' \<notin> set pre
        \<and> idle_count pre < read_attempts self \<longrightarrow>
      fst (read_response L self)
        = (case json_loads L (concat pre @ ''}'') of
             None \<Rightarrow> Inl JSONDecodeError | Some d \<Rightarrow> Inr d))
   \<and> ((\<exists>buf. fst (read_response L self) = Inl (ReadTimeout buf)) \<longleftrightarrow>
        \<not> (\<exists>pre rest. incoming (p_inst self) = pre @ ''}'' # rest \<and> ''}'' \<notin> set pre
              \<and> idle_count pre < read_attempts self))
   \<and> (fst (read_response L self) = Inl (ReadTimeout buf) \<longrightarrow>
        (\<exists>ds. delivered (p_inst (snd (read_response L self))) = delivered (p_inst self) @ ds
              \<and> buf = concat ds \<and> idle_count ds = read_attempts self))
   \<and> (list_all (\<lambda>c. c = []) (incoming (p_inst self)) \<longrightarrow>
        fst (read_response L self) = Inl (ReadTimeout [])
        \<and> delivered (p_inst (snd (read_response L self)))
            = delivered (p_inst self) @ replicate (nat (read_attempts self)) [])"
proof (intro conjI impI)
  assume h: "incoming (p_inst self) = pre @ ''}'' # rest \<and> ''}'' \<notin> set pre
        \<and> idle_count pre < read_attempts self"
  then have "fst (read_loop (read_attempts self) [] None 0 (p_inst self))
               = ([] @ concat pre @ ''}'', 0 + idle_count pre)"
    by (intro read_loop_closes) simp_all
  with h show "fst (read_response L self)
        = (case json_loads L (concat pre @ ''}'') of
             None \<Rightarrow> Inl JSONDecodeError | Some d \<Rightarrow> Inr d)"
    by (auto simp: read_response_def split: prod.splits option.splits)
next
  show "(\<exists>buf. fst (read_response L self) = Inl (ReadTimeout buf)) \<longleftrightarrow>
        \<not> (\<exists>pre rest. incoming (p_inst self) = pre @ ''}'' # rest \<and> ''}'' \<notin> set pre
              \<and> idle_count pre < read_attempts self)"
    using read_response_timeout_iff[OF assms, of L] by (simp only: closes_within_iff)
next
  assume t: "fst (read_response L self) = Inl (ReadTimeout buf)"
  let ?R = "read_loop (read_attempts self) [] None 0 (p_inst self)"
  from read_loop_trace[of "read_attempts self" "[]" None 0 "p_inst self"] obtain ds where
    ds: "delivered (snd ?R) = delivered (p_inst self) @ ds" "fst (fst ?R) = [] @ concat ds"
      "snd (fst ?R) = 0 + idle_count ds" by blast
  from t have "fst (fst ?R) = buf \<and> snd (fst ?R) = read_attempts self
      \<and> p_inst (snd (read_response L self)) = snd ?R"
    by (auto simp: read_response_def split: prod.splits option.splits if_splits)
  with ds have "delivered (p_inst (snd (read_response L self))) = delivered (p_inst self) @ ds
              \<and> buf = concat ds \<and> idle_count ds = read_attempts self"
    by simp
  then show "\<exists>ds. delivered (p_inst (snd (read_response L self))) = delivered (p_inst self) @ ds
              \<and> buf = concat ds \<and> idle_count ds = read_attempts self"
    by blast
next
  assume s: "list_all (\<lambda>c. c = []) (incoming (p_inst self))"
  let ?R = "read_loop (read_attempts self) [] None 0 (p_inst self)"
  have r: "fst ?R = ([], read_attempts self) \<and>
        delivered (snd ?R) = delivered (p_inst self) @ replicate (nat (read_attempts self - 0)) []"
    by (rule read_loop_silent) (use assms s in simp_all)
  then show "fst (read_response L self) = Inl (ReadTimeout [])"
    by (auto simp: read_response_def split: prod.splits)
  from r show "delivered (p_inst (snd (read_response L self)))
            = delivered (p_inst self) @ replicate (nat (read_attempts self)) []"
    by (auto simp: read_response_def split: prod.splits)
qed

theorem read_response_timeout_witness:
  "0 \<le> read_attempts (holder PNone 10 (PNum 200) []) \<and>
   list_all (\<lambda>c. c = []) (incoming (p_inst (holder PNone 10 (PNum 200) []))) \<and>
   fst (read_response demo_lib (holder PNone 10 (PNum 200) [])) = Inl (ReadTimeout []) \<and>
   delivered (p_inst (snd (read_response demo_lib (holder PNone 10 (PNum 200) []))))
     = [[], [], []]"
proof -
  let ?h = "holder PNone 10 (PNum 200) []"
  have h: "0 \<le> read_attempts ?h" by (simp add: fixture_defs)
  have s: "list_all (\<lambda>c. c = []) (incoming (p_inst ?h))" by (simp add: fixture_defs)
  have r: "replicate (nat (read_attempts ?h)) ([]::string) = [[], [], []]"
    by (simp add: fixture_defs numeral_3_eq_3)
  have d: "delivered (p_inst ?h) = []" by (simp add: fixture_defs)
  from read_response_timeout [OF h, of "[]" "[]" demo_lib "[]"] s
  have "fst (read_response demo_lib ?h) = Inl (ReadTimeout []) \<and>
        delivered (p_inst (snd (read_response demo_lib ?h)))
          = delivered (p_inst ?h) @ replicate (nat (read_attempts ?h)) []"
    by blast
  with h s show ?thesis by (simp only: r d append_Nil simp_thms)
qed

text \<open>
  The claim as stated (failure exactly when \<open>read_attempts\<close> consecutive reads add
  nothing) fails: with \<open>read_attempts = 2\<close> and a device whose reads return nothing,
  \<open>{\<close>, nothing, \<open>}\<close>, the call fails at the third read with the buffer \<open>{\<close>, and no two
  consecutive reads were idle.
\<close>

theorem idle_reads_need_not_be_consecutive:
  "fst (read_response demo_lib
          ((holder PNone 10 (PNum 200) [[], ''{'', [], ''}''])\<lparr>read_attempts := 2\<rparr>))
     = Inl (ReadTimeout ''{'') \<and>
   delivered (p_inst (snd (read_response demo_lib
          ((holder PNone 10 (PNum 200) [[], ''{'', [], ''}''])\<lparr>read_attempts := 2\<rparr>))))
     = [[], ''{'', []] \<and>
   \<not> idle_runs 2 [[], ''{'', []]"
  by (simp add: run_eval numeral_2_eq_2)

subsection \<open>A response that arrives without gaps\<close>

text \<open>
  C9. For every \<open>read_attempts > 0\<close>: when every read of the channel yields one byte of a
  response that contains a \<open>}\<close>, the decode cycle stops at the first \<open>}\<close> and hands the
  bytes up to it to the decoder; it never ends in the read-timeout error, and neither
  does an invocation.
\<close>

theorem gapless_never_times_out:
  assumes "0 < read_attempts self" and "incoming (p_inst self) = bytewise bs @ rest"
    and "CHR ''}'' \<in> set bs"
  shows "fst (read_response L self)
           = (case json_loads L (takeWhile (\<lambda>b. b \<noteq> CHR ''}'') bs @ ''}'') of
                None \<Rightarrow> Inl JSONDecodeError | Some d \<Rightarrow> Inr d)
       \<and> fst (read_response L self) \<noteq> Inl (ReadTimeout buf)
       \<and> fst (run L self name args) \<noteq> Inl (ReadTimeout buf)"
proof -
  have rr: "fst (read_response L s)
           = (case json_loads L (takeWhile (\<lambda>b. b \<noteq> CHR ''}'') bs @ ''}'') of
                None \<Rightarrow> Inl JSONDecodeError | Some d \<Rightarrow> Inr d)"
    if "read_attempts s = read_attempts self" "incoming (p_inst s) = incoming (p_inst self)"
    for s :: "'a arduino_scheme"
  proof -
    have "fst (read_loop (read_attempts s) [] None 0 (p_inst s))
            = ([] @ takeWhile (\<lambda>b. b \<noteq> CHR ''}'') bs @ ''}'', 0)"
      by (rule read_loop_bytewise[where rest = rest]) (use assms that in simp_all)
    then show ?thesis using assms(1) that(1)
      by (auto simp: read_response_def split: prod.splits option.splits)
  qed
  have nt: "fst (read_response L s) \<noteq> Inl (ReadTimeout buf)"
    if "read_attempts s = read_attempts self" "incoming (p_inst s) = incoming (p_inst self)"
    for s :: "'a arduino_scheme"
    using rr[OF that] by (auto split: option.splits)
  let ?s1 = "self\<lparr>p_inst := serial_write (command_text L self name args) (p_inst self)\<rparr>"
  have "fst (read_response L ?s1) \<noteq> Inl (ReadTimeout buf)"
    by (rule nt) (simp_all add: serial_write_def)
  then have "fst (run L self name args) \<noteq> Inl (ReadTimeout buf)"
    using run_timeout by blast
  with rr[of self] nt[of self] show ?thesis by simp
qed

theorem gapless_never_times_out_witness:
  "0 < read_attempts (holder PNone 10 (PNum 200) (bytewise one_text)) \<and>
   incoming (p_inst (holder PNone 10 (PNum 200) (bytewise one_text))) = bytewise one_text @ [] \<and>
   CHR ''}'' \<in> set one_text \<and>
   fst (run demo_lib (holder PNone 10 (PNum 200) (bytewise one_text)) ''is_enabled'' [])
     \<noteq> Inl (ReadTimeout one_text) \<and>
   fst (run demo_lib (holder PNone 10 (PNum 200) (bytewise one_text)) ''is_enabled'' [])
     = Inr (PStr ''1'')"
proof -
  let ?h = "holder PNone 10 (PNum 200) (bytewise one_text)"
  have h: "0 < read_attempts ?h" "incoming (p_inst ?h) = bytewise one_text @ []"
    "CHR ''}'' \<in> set one_text"
    by (simp_all add: fixture_defs one_text_def)
  have v: "fst (run demo_lib ?h ''is_enabled'' []) = Inr (PStr ''1'')" by code_simp
  from gapless_never_times_out [OF h, of demo_lib one_text "''is_enabled''" "[]"] h v
  show ?thesis by blast
qed

end
